theory Spec2Isabelle
  imports Complex_Main "HOL-Library.AList"
begin

section \<open>The attributed graph\<close>

text \<open>
  The algorithms of \<^verbatim>\<open>mycelium_algorithm.py\<close> work on a \<^verbatim>\<open>networkx.Graph\<close>. The
  library keeps two insertion-ordered dictionaries: \<^verbatim>\<open>_node\<close>, from a node key to the
  node's attribute dictionary, and \<^verbatim>\<open>_adj\<close>, from a node key to the dictionary of its
  neighbours, each neighbour mapped to the attribute dictionary of the edge. Ordered
  dictionaries are association lists here (\<open>AList.update\<close> overwrites in place or
  appends, as a Python \<^verbatim>\<open>dict\<close> does). Numbers are real numbers: the arithmetic of
  the model is exact. An attribute that is absent from a dictionary is \<open>None\<close>.
\<close>

datatype error = KeyError | NetworkXError | NodeNotFound | NetworkXNoPath | IndexError

text \<open>
  A raised exception is the left value of a sum; \<open>bind_err\<close> passes it on, as
  the statements after a raising one are skipped.
\<close>

definition bind_err :: "error + 'a \<Rightarrow> ('a \<Rightarrow> error + 'b) \<Rightarrow> error + 'b" where
  "bind_err m f = (case m of Inl e \<Rightarrow> Inl e | Inr x \<Rightarrow> f x)"

text \<open>
  The attributes written by \<^verbatim>\<open>add_mycelial_node\<close> and \<^verbatim>\<open>add_mycelial_connection\<close>
  (\<^verbatim>\<open>mycelium_database.py\<close>) and by \<^verbatim>\<open>self_healing_response\<close>.
\<close>

record node_attrs =
  resources :: "real option"
  node_type :: "string option"
  health :: "real option"
  connections :: "int option"

record edge_attrs =
  strength :: "real option"
  capacity :: "real option"
  flow :: "real option"
  last_used :: "real option"
  healing_connection :: "bool option"

type_synonym 'k adjacency = "('k \<times> ('k \<times> edge_attrs) list) list"

record 'k graph =
  node_dict :: "('k \<times> node_attrs) list"
  adj_dict :: "'k adjacency"

text \<open>\<^verbatim>\<open>graph._adj[u][v]\<close>, when both keys are there.\<close>

definition adj_lookup :: "'k adjacency \<Rightarrow> 'k \<Rightarrow> 'k \<Rightarrow> edge_attrs option" where
  "adj_lookup adj u v = (case map_of adj u of None \<Rightarrow> None | Some nbrs \<Rightarrow> map_of nbrs v)"

text \<open>
  What the library maintains for every graph it builds: the two dictionaries have the
  same keys in the same order, no key occurs twice, and an edge is stored under both of
  its endpoints with the same attribute dictionary.
\<close>

definition wf_graph :: "'k graph \<Rightarrow> bool" where
  "wf_graph g \<longleftrightarrow>
     distinct (map fst (node_dict g)) \<and>
     map fst (adj_dict g) = map fst (node_dict g) \<and>
     list_all (\<lambda>un. distinct (map fst (snd un)) \<and>
        list_all (\<lambda>va. adj_lookup (adj_dict g) (fst va) (fst un) = Some (snd va)) (snd un))
       (adj_dict g)"

text \<open>\<^verbatim>\<open>graph.nodes[n].get('resources', 0)\<close>\<close>

definition get_resources :: "'k graph \<Rightarrow> 'k \<Rightarrow> error + real" where
  "get_resources g n =
     (case map_of (node_dict g) n of
        None \<Rightarrow> Inl KeyError
      | Some a \<Rightarrow> Inr (case resources a of None \<Rightarrow> 0 | Some r \<Rightarrow> r))"

text \<open>\<^verbatim>\<open>graph.nodes[n]['resources'] = v\<close>\<close>

definition set_resources :: "'k graph \<Rightarrow> 'k \<Rightarrow> real \<Rightarrow> error + 'k graph" where
  "set_resources g n v =
     (case map_of (node_dict g) n of
        None \<Rightarrow> Inl KeyError
      | Some a \<Rightarrow> Inr (g\<lparr>node_dict := AList.update n (a\<lparr>resources := Some v\<rparr>) (node_dict g)\<rparr>))"

text \<open>\<^verbatim>\<open>graph.edges[edge]\<close>\<close>

definition edges_getitem :: "'k graph \<Rightarrow> 'k \<times> 'k \<Rightarrow> error + edge_attrs" where
  "edges_getitem g edge =
     (case adj_lookup (adj_dict g) (fst edge) (snd edge) of
        None \<Rightarrow> Inl KeyError
      | Some a \<Rightarrow> Inr a)"

text \<open>\<^verbatim>\<open>graph.edges[edge].get('capacity', 1)\<close>\<close>

definition get_capacity :: "'k graph \<Rightarrow> 'k \<times> 'k \<Rightarrow> error + real" where
  "get_capacity g edge =
     (case edges_getitem g edge of
        Inl e \<Rightarrow> Inl e
      | Inr a \<Rightarrow> Inr (case capacity a of None \<Rightarrow> 1 | Some c \<Rightarrow> c))"

text \<open>\<^verbatim>\<open>graph.edges[edge].get('strength', 1.0)\<close>\<close>

definition get_strength :: "'k graph \<Rightarrow> 'k \<times> 'k \<Rightarrow> error + real" where
  "get_strength g edge =
     (case edges_getitem g edge of
        Inl e \<Rightarrow> Inl e
      | Inr a \<Rightarrow> Inr (case strength a of None \<Rightarrow> 1 | Some s \<Rightarrow> s))"

text \<open>
  \<^verbatim>\<open>graph.edges[edge]['strength'] = v\<close>. The attribute dictionary of an edge is one
  object, reachable from both endpoints, so the write shows under \<open>(u, v)\<close> and under
  \<open>(v, u)\<close>.
\<close>

definition adj_set_strength :: "'k \<Rightarrow> 'k \<Rightarrow> real \<Rightarrow> 'k adjacency \<Rightarrow> 'k adjacency" where
  "adj_set_strength u v x adj =
     AList.map_entry u (AList.map_entry v (\<lambda>a. a\<lparr>strength := Some x\<rparr>)) adj"

definition set_strength :: "'k graph \<Rightarrow> 'k \<times> 'k \<Rightarrow> real \<Rightarrow> error + 'k graph" where
  "set_strength g edge x =
     (case edges_getitem g edge of
        Inl e \<Rightarrow> Inl e
      | Inr a \<Rightarrow>
          Inr (g\<lparr>adj_dict :=
                 adj_set_strength (snd edge) (fst edge) x
                   (adj_set_strength (fst edge) (snd edge) x (adj_dict g))\<rparr>))"

text \<open>
  \<^verbatim>\<open>graph.edges()\<close>: the library walks the adjacency in order and reports an edge from
  the endpoint it meets first, skipping neighbours it has already finished.
\<close>

fun edges_from :: "'k list \<Rightarrow> 'k adjacency \<Rightarrow> ('k \<times> 'k) list" where
  "edges_from seen [] = []"
| "edges_from seen (un # rest) =
     map (\<lambda>nbr. (fst un, nbr)) (filter (\<lambda>nbr. nbr \<notin> set seen) (map fst (snd un)))
       @ edges_from (fst un # seen) rest"

definition edges :: "'k graph \<Rightarrow> ('k \<times> 'k) list" where
  "edges g = edges_from [] (adj_dict g)"

section \<open>Nutrient flow simulation\<close>

record 'k flow_data =
  direction :: "'k \<times> 'k"
  amount :: real

type_synonym 'k step_flows = "(('k \<times> 'k) \<times> 'k flow_data) list"

text \<open>The body of the loop over \<^verbatim>\<open>graph.edges()\<close>: the flow of one edge.\<close>

definition edge_flow :: "'k graph \<Rightarrow> 'k step_flows \<Rightarrow> 'k \<times> 'k \<Rightarrow> error + 'k step_flows" where
  "edge_flow g step_flows edge =
     (let node1 = fst edge; node2 = snd edge in
      bind_err (get_resources g node1) (\<lambda>resource1.
      bind_err (get_resources g node2) (\<lambda>resource2.
        if resource1 \<noteq> resource2 then
          bind_err (get_capacity g edge) (\<lambda>cap.
            let flow_rate = min cap (\<bar>resource1 - resource2\<bar> * 0.1);
                flow_direction = (if resource1 > resource2 then (node1, node2) else (node2, node1))
            in Inr (AList.update edge \<lparr>direction = flow_direction, amount = flow_rate\<rparr> step_flows))
        else Inr step_flows)))"

fun calc_flows :: "'k graph \<Rightarrow> ('k \<times> 'k) list \<Rightarrow> 'k step_flows \<Rightarrow> error + 'k step_flows" where
  "calc_flows g [] step_flows = Inr step_flows"
| "calc_flows g (edge # es) step_flows =
     (case edge_flow g step_flows edge of
        Inl e \<Rightarrow> Inl e
      | Inr step_flows' \<Rightarrow> calc_flows g es step_flows')"

text \<open>The body of the loop over \<^verbatim>\<open>step_flows.items()\<close>: one transfer.\<close>

definition apply_flow :: "'k graph \<Rightarrow> ('k \<times> 'k) \<times> 'k flow_data \<Rightarrow> error + 'k graph" where
  "apply_flow g item =
     (let edge = fst item; from_node = fst (direction (snd item));
          to_node = snd (direction (snd item)); amt = amount (snd item) in
      bind_err (get_resources g from_node) (\<lambda>current_from.
      bind_err (get_resources g to_node) (\<lambda>current_to.
      bind_err (set_resources g from_node (max 0 (current_from - amt))) (\<lambda>g1.
      bind_err (set_resources g1 to_node (current_to + amt)) (\<lambda>g2.
      bind_err (get_strength g2 edge) (\<lambda>current_strength.
        set_strength g2 edge (min 2 (current_strength + 0.1))))))))"

fun apply_flows :: "'k graph \<Rightarrow> 'k step_flows \<Rightarrow> error + 'k graph" where
  "apply_flows g [] = Inr g"
| "apply_flows g (item # items) =
     (case apply_flow g item of
        Inl e \<Rightarrow> Inl e
      | Inr g' \<Rightarrow> apply_flows g' items)"

text \<open>One time step: the flows are computed from the graph as it stands, then applied.\<close>

definition flow_step :: "'k graph \<Rightarrow> error + ('k graph \<times> 'k step_flows)" where
  "flow_step g =
     bind_err (calc_flows g (edges g) []) (\<lambda>step_flows.
     bind_err (apply_flows g step_flows) (\<lambda>g'.
       Inr (g', step_flows)))"

fun flow_loop :: "nat \<Rightarrow> 'k graph \<Rightarrow> 'k step_flows list \<Rightarrow> error + ('k graph \<times> 'k step_flows list)" where
  "flow_loop 0 g flow_history = Inr (g, flow_history)"
| "flow_loop (Suc n) g flow_history =
     (case flow_step g of
        Inl e \<Rightarrow> Inl e
      | Inr r \<Rightarrow> flow_loop n (fst r) (flow_history @ [snd r]))"

text \<open>
  \<^verbatim>\<open>nutrient_flow_simulation(graph, source_nodes, sink_nodes, time_steps)\<close> returns the
  flow history; the graph it mutated is returned beside it. \<^verbatim>\<open>range(time_steps)\<close> is
  empty for a negative \<^verbatim>\<open>time_steps\<close>.
\<close>

definition nutrient_flow_simulation ::
  "'k graph \<Rightarrow> 'k list \<Rightarrow> 'k list \<Rightarrow> int \<Rightarrow> error + ('k graph \<times> 'k step_flows list)" where
  "nutrient_flow_simulation g source_nodes sink_nodes time_steps =
     flow_loop (nat time_steps) g []"

section \<open>Self-healing\<close>

subsection \<open>The library operations it calls\<close>

text \<open>The empty attribute dictionary of a node and of an edge.\<close>

definition bare_node :: node_attrs where
  "bare_node = \<lparr>resources = None, node_type = None, health = None, connections = None\<rparr>"

definition bare_edge :: edge_attrs where
  "bare_edge =
     \<lparr>strength = None, capacity = None, flow = None, last_used = None, healing_connection = None\<rparr>"

text \<open>\<^verbatim>\<open>node in graph.nodes()\<close>\<close>

definition has_node :: "'k graph \<Rightarrow> 'k \<Rightarrow> bool" where
  "has_node g n \<longleftrightarrow> n \<in> set (map fst (node_dict g))"

text \<open>\<^verbatim>\<open>list(graph.neighbors(node))\<close>; the library raises for a node it does not have.\<close>

definition neighbors :: "'k graph \<Rightarrow> 'k \<Rightarrow> error + 'k list" where
  "neighbors g n =
     (case map_of (adj_dict g) n of
        None \<Rightarrow> Inl NetworkXError
      | Some nbrs \<Rightarrow> Inr (map fst nbrs))"

text \<open>
  \<^verbatim>\<open>graph.remove_node(n)\<close>: the library deletes the node's attribute dictionary, then
  the entry for \<open>n\<close> in the adjacency of each neighbour, then the adjacency of \<open>n\<close>.
\<close>

definition remove_node :: "'k graph \<Rightarrow> 'k \<Rightarrow> error + 'k graph" where
  "remove_node g n =
     (case map_of (adj_dict g) n of
        None \<Rightarrow> Inl NetworkXError
      | Some nbrs \<Rightarrow>
          Inr \<lparr>node_dict = AList.delete n (node_dict g),
               adj_dict = AList.delete n
                 (fold (\<lambda>u. AList.map_entry u (AList.delete n)) (map fst nbrs) (adj_dict g))\<rparr>)"

text \<open>
  \<^verbatim>\<open>graph.add_edge(u, v, **attr)\<close>: an endpoint the graph does not have is added with
  empty attributes; the attribute dictionary of the edge (the one already there, or a
  new empty one) is updated with \<^verbatim>\<open>attr\<close> and stored under both endpoints. The
  update is the function \<open>upd\<close>.
\<close>

definition add_missing_node :: "'k graph \<Rightarrow> 'k \<Rightarrow> 'k graph" where
  "add_missing_node g u =
     (if has_node g u then g
      else \<lparr>node_dict = node_dict g @ [(u, bare_node)], adj_dict = adj_dict g @ [(u, [])]\<rparr>)"

definition add_edge :: "'k graph \<Rightarrow> 'k \<Rightarrow> 'k \<Rightarrow> (edge_attrs \<Rightarrow> edge_attrs) \<Rightarrow> 'k graph" where
  "add_edge g u v upd =
     (let g1 = add_missing_node (add_missing_node g u) v;
          datadict = upd (case adj_lookup (adj_dict g1) u v of None \<Rightarrow> bare_edge | Some a \<Rightarrow> a)
      in g1\<lparr>adj_dict :=
              AList.map_entry v (AList.update u datadict)
                (AList.map_entry u (AList.update v datadict) (adj_dict g1))\<rparr>)"

text \<open>
  \<^verbatim>\<open>nx.connected_components(graph)\<close>: the library goes through the nodes in order and,
  for each node not yet in a component, collects all nodes reachable from it. A
  component is a set; here it is the list of its members. The search adds the
  neighbours of everything found so far, once for every node of the graph.
\<close>

definition nbrs_of :: "'k adjacency \<Rightarrow> 'k \<Rightarrow> 'k list" where
  "nbrs_of adj u = (case map_of adj u of None \<Rightarrow> [] | Some nbrs \<Rightarrow> map fst nbrs)"

fun bfs_closure :: "'k adjacency \<Rightarrow> nat \<Rightarrow> 'k list \<Rightarrow> 'k list" where
  "bfs_closure adj 0 found = found"
| "bfs_closure adj (Suc fuel) found =
     bfs_closure adj fuel (remdups (found @ concat (map (nbrs_of adj) found)))"

definition plain_bfs :: "'k graph \<Rightarrow> 'k \<Rightarrow> 'k list" where
  "plain_bfs g v = bfs_closure (adj_dict g) (length (node_dict g)) [v]"

fun components_from :: "'k graph \<Rightarrow> 'k list \<Rightarrow> 'k list \<Rightarrow> 'k list list" where
  "components_from g seen [] = []"
| "components_from g seen (v # vs) =
     (if v \<in> set seen then components_from g seen vs
      else plain_bfs g v # components_from g (seen @ plain_bfs g v) vs)"

definition connected_components :: "'k graph \<Rightarrow> 'k list list" where
  "connected_components g = components_from g [] (map fst (node_dict g))"

subsection \<open>The random number generator\<close>

text \<open>
  The module-level generator of \<^verbatim>\<open>random\<close> is a state: the values \<^verbatim>\<open>random.random()\<close>
  will return, the raw numbers \<^verbatim>\<open>random.choice\<close> will draw, and how many of each have
  been used. A choice takes the element at the drawn number modulo the length, so every
  element can be chosen; \<^verbatim>\<open>random.choice\<close> of an empty sequence raises.
\<close>

record rng =
  floats :: "nat \<Rightarrow> real"
  floats_used :: nat
  picks :: "nat \<Rightarrow> nat"
  picks_used :: nat

definition random_random :: "rng \<Rightarrow> real \<times> rng" where
  "random_random r = (floats r (floats_used r), r\<lparr>floats_used := Suc (floats_used r)\<rparr>)"

definition random_choice :: "rng \<Rightarrow> 'a list \<Rightarrow> error + ('a \<times> rng)" where
  "random_choice r xs =
     (if xs = [] then Inl IndexError
      else Inr (xs ! (picks r (picks_used r) mod length xs), r\<lparr>picks_used := Suc (picks_used r)\<rparr>))"

subsection \<open>\<^verbatim>\<open>self_healing_response\<close>\<close>

text \<open>
  The two messages appended to \<^verbatim>\<open>healing_actions\<close>, with the values their format
  strings print: the removed node and its resources, the two ends of a new connection.
\<close>

datatype 'k action = Removed 'k real | Created 'k 'k

text \<open>The loop over the neighbours of a damaged node.\<close>

fun redistribute :: "'k graph \<Rightarrow> real \<Rightarrow> 'k list \<Rightarrow> error + 'k graph" where
  "redistribute g resource_per_neighbor [] = Inr g"
| "redistribute g resource_per_neighbor (neighbor # rest) =
     bind_err (get_resources g neighbor) (\<lambda>current_resources.
     bind_err (set_resources g neighbor (current_resources + resource_per_neighbor)) (\<lambda>g'.
       redistribute g' resource_per_neighbor rest))"

text \<open>The body of the loop over \<^verbatim>\<open>damaged_nodes\<close>.\<close>

definition heal_node :: "'k graph \<times> 'k action list \<Rightarrow> 'k \<Rightarrow> error + ('k graph \<times> 'k action list)" where
  "heal_node st node =
     (let g = fst st; healing_actions = snd st in
      if has_node g node then
        bind_err (neighbors g node) (\<lambda>nbrs.
        bind_err (get_resources g node) (\<lambda>res.
        bind_err (if nbrs \<noteq> [] then redistribute g (res / real (length nbrs)) nbrs else Inr g) (\<lambda>g1.
        bind_err (remove_node g1 node) (\<lambda>g2.
          Inr (g2, healing_actions @ [Removed node res])))))
      else Inr (g, healing_actions))"

fun heal_nodes :: "'k graph \<times> 'k action list \<Rightarrow> 'k list \<Rightarrow> error + ('k graph \<times> 'k action list)" where
  "heal_nodes st [] = Inr st"
| "heal_nodes st (node # rest) = bind_err (heal_node st node) (\<lambda>st'. heal_nodes st' rest)"

text \<open>The attributes of a healing connection.\<close>

definition healing_attrs :: "real \<Rightarrow> edge_attrs \<Rightarrow> edge_attrs" where
  "healing_attrs healing_factor a =
     a\<lparr>strength := Some healing_factor, capacity := Some 5, healing_connection := Some True\<rparr>"

text \<open>
  The loop over \<^verbatim>\<open>range(len(components) - 1)\<close>: each component is joined to the next
  one of the list.
\<close>

fun connect_components ::
  "'k graph \<Rightarrow> rng \<Rightarrow> real \<Rightarrow> 'k action list \<Rightarrow> 'k list list \<Rightarrow>
     error + ('k graph \<times> rng \<times> 'k action list)" where
  "connect_components g r healing_factor healing_actions (comp1_nodes # comp2_nodes # cs) =
     bind_err (random_choice r comp1_nodes) (\<lambda>c1.
     bind_err (random_choice (snd c1) comp2_nodes) (\<lambda>c2.
       connect_components (add_edge g (fst c1) (fst c2) (healing_attrs healing_factor)) (snd c2)
         healing_factor (healing_actions @ [Created (fst c1) (fst c2)]) (comp2_nodes # cs)))"
| "connect_components g r healing_factor healing_actions cs = Inr (g, r, healing_actions)"

text \<open>
  \<^verbatim>\<open>self_healing_response(graph, damaged_nodes, healing_factor)\<close> returns the actions;
  the graph it mutated and the generator it used are returned beside them.
\<close>

definition self_healing_response ::
  "'k graph \<Rightarrow> 'k list \<Rightarrow> real \<Rightarrow> rng \<Rightarrow> error + ('k graph \<times> rng \<times> 'k action list)" where
  "self_healing_response g damaged_nodes healing_factor r =
     bind_err (heal_nodes (g, []) damaged_nodes) (\<lambda>st.
       let components = connected_components (fst st) in
       if length components > 1
       then connect_components (fst st) r healing_factor (snd st) components
       else Inr (fst st, r, snd st))"

section \<open>Pathfinding\<close>

subsection \<open>The library operations it calls\<close>

text \<open>
  \<^verbatim>\<open>nx.shortest_path(graph, source, target)\<close> raises \<^verbatim>\<open>NodeNotFound\<close> when an endpoint
  is not in the graph and \<^verbatim>\<open>NetworkXNoPath\<close> when no path joins them, and otherwise
  returns the nodes of a path with the least number of hops. The library searches
  breadth-first; the model tries the hop counts 0, 1, ... in turn, up to the number of
  nodes, and returns the first path it meets, which has the least hop count as well.
  Which of several shortest paths comes back is not relied on.
\<close>

fun walks :: "'k adjacency \<Rightarrow> nat \<Rightarrow> 'k \<Rightarrow> 'k list list" where
  "walks adj 0 s = [[s]]"
| "walks adj (Suc n) s = concat (map (\<lambda>v. map ((#) s) (walks adj n v)) (nbrs_of adj s))"

definition walks_to :: "'k adjacency \<Rightarrow> nat \<Rightarrow> 'k \<Rightarrow> 'k \<Rightarrow> 'k list list" where
  "walks_to adj n s t = filter (\<lambda>p. last p = t) (walks adj n s)"

fun search :: "'k adjacency \<Rightarrow> 'k \<Rightarrow> 'k \<Rightarrow> nat \<Rightarrow> nat \<Rightarrow> 'k list option" where
  "search adj s t hops 0 = None"
| "search adj s t hops (Suc fuel) =
     (case walks_to adj hops s t of
        [] \<Rightarrow> search adj s t (Suc hops) fuel
      | p # _ \<Rightarrow> Some p)"

definition shortest_path :: "'k graph \<Rightarrow> 'k \<Rightarrow> 'k \<Rightarrow> error + 'k list" where
  "shortest_path g source target =
     (if \<not> has_node g source \<or> \<not> has_node g target then Inl NodeNotFound
      else case search (adj_dict g) source target 0 (length (node_dict g)) of
             None \<Rightarrow> Inl NetworkXNoPath
           | Some p \<Rightarrow> Inr p)"

text \<open>\<^verbatim>\<open>graph.has_edge(u, v)\<close>\<close>

definition has_edge :: "'k graph \<Rightarrow> 'k \<Rightarrow> 'k \<Rightarrow> bool" where
  "has_edge g u v \<longleftrightarrow> adj_lookup (adj_dict g) u v \<noteq> None"

text \<open>
  \<^verbatim>\<open>graph.remove_edge(u, v)\<close>: the edge is deleted under both endpoints; the library
  raises when the edge is not there.
\<close>

definition remove_edge :: "'k graph \<Rightarrow> 'k \<Rightarrow> 'k \<Rightarrow> error + 'k graph" where
  "remove_edge g u v =
     (if has_edge g u v
      then Inr (g\<lparr>adj_dict :=
             (if u \<noteq> v then AList.map_entry v (AList.delete u) else id)
               (AList.map_entry u (AList.delete v) (adj_dict g))\<rparr>)
      else Inl NetworkXError)"

subsection \<open>Graph objects\<close>

text \<open>
  \<^verbatim>\<open>hyphal_growth_pathfinding\<close> receives a reference to the caller's graph, and
  \<^verbatim>\<open>graph.copy()\<close> makes a new graph object. The objects live in a heap, a list indexed
  by reference; a copy is a new object at the end of the list, and a mutation of an
  object replaces the entry at its reference.
\<close>

type_synonym 'k heap = "'k graph list"

definition graph_copy :: "'k heap \<Rightarrow> nat \<Rightarrow> 'k heap \<times> nat" where
  "graph_copy h ref = (h @ [h ! ref], length h)"

subsection \<open>\<^verbatim>\<open>hyphal_growth_pathfinding\<close>\<close>

text \<open>\<^verbatim>\<open>str(n)\<close> for the number in the label of an alternative path.\<close>

fun string_of_nat :: "nat \<Rightarrow> string" where
  "string_of_nat n =
     (if n < 10 then [''0123456789'' ! n]
      else string_of_nat (n div 10) @ [''0123456789'' ! (n mod 10)])"

declare string_of_nat.simps [simp del]

type_synonym 'k paths = "(string \<times> 'k list) list"

text \<open>
  The loop over \<^verbatim>\<open>range(len(path) - 1)\<close>: each edge of the path that the copy still has
  is removed when the next random number is below 0.3. A random number is drawn only
  for an edge that is there.
\<close>

fun remove_along :: "'k heap \<Rightarrow> nat \<Rightarrow> rng \<Rightarrow> 'k list \<Rightarrow> error + ('k heap \<times> rng)" where
  "remove_along h temp_graph r (u # v # rest) =
     (if has_edge (h ! temp_graph) u v then
        (if fst (random_random r) < 0.3 then
           bind_err (remove_edge (h ! temp_graph) u v) (\<lambda>g'.
             remove_along (h[temp_graph := g']) temp_graph (snd (random_random r)) (v # rest))
         else remove_along h temp_graph (snd (random_random r)) (v # rest))
      else remove_along h temp_graph r (v # rest))"
| "remove_along h temp_graph r path = Inr (h, r)"

text \<open>The loop over \<^verbatim>\<open>paths\<close>.\<close>

fun remove_paths :: "'k heap \<Rightarrow> nat \<Rightarrow> rng \<Rightarrow> 'k paths \<Rightarrow> error + ('k heap \<times> rng)" where
  "remove_paths h temp_graph r [] = Inr (h, r)"
| "remove_paths h temp_graph r (p # ps) =
     bind_err (remove_along h temp_graph r (snd p)) (\<lambda>hr.
       remove_paths (fst hr) temp_graph (snd hr) ps)"

text \<open>
  The body of the loop over \<^verbatim>\<open>range(3)\<close>: one attempt at an alternative path. The
  inner \<^verbatim>\<open>try\<close> catches \<^verbatim>\<open>NetworkXNoPath\<close> only; any other exception leaves the
  function.
\<close>

definition trial ::
  "nat \<Rightarrow> 'k \<Rightarrow> 'k \<Rightarrow> 'k heap \<times> rng \<times> 'k paths \<Rightarrow> error + ('k heap \<times> rng \<times> 'k paths)" where
  "trial graph start target st =
     (let h = fst st; r = fst (snd st); paths = snd (snd st);
          h1 = fst (graph_copy h graph); temp_graph = snd (graph_copy h graph) in
      bind_err (if paths \<noteq> [] then remove_paths h1 temp_graph r paths else Inr (h1, r)) (\<lambda>hr.
        case shortest_path (fst hr ! temp_graph) start target of
          Inr alt_path \<Rightarrow>
            Inr (fst hr, snd hr,
                 if alt_path \<notin> set (map snd paths)
                 then paths @ [(''alternative_'' @ string_of_nat (length paths), alt_path)]
                 else paths)
        | Inl e \<Rightarrow> (if e = NetworkXNoPath then Inr (fst hr, snd hr, paths) else Inl e)))"

fun trials ::
  "nat \<Rightarrow> nat \<Rightarrow> 'k \<Rightarrow> 'k \<Rightarrow> 'k heap \<times> rng \<times> 'k paths \<Rightarrow> error + ('k heap \<times> rng \<times> 'k paths)" where
  "trials 0 graph start target st = Inr st"
| "trials (Suc n) graph start target st =
     bind_err (trial graph start target st) (trials n graph start target)"

text \<open>
  \<^verbatim>\<open>hyphal_growth_pathfinding(graph, start, target, avoid_overused)\<close> returns the paths;
  the heap and the generator after the call are returned beside them. The outer \<^verbatim>\<open>try\<close>
  turns \<^verbatim>\<open>NetworkXNoPath\<close> from the primary search into the empty result.
\<close>

definition hyphal_growth_pathfinding ::
  "'k heap \<Rightarrow> nat \<Rightarrow> 'k \<Rightarrow> 'k \<Rightarrow> bool \<Rightarrow> rng \<Rightarrow> error + ('k heap \<times> rng \<times> 'k paths)" where
  "hyphal_growth_pathfinding h graph start target avoid_overused r =
     (case shortest_path (h ! graph) start target of
        Inr primary \<Rightarrow> trials 3 graph start target (h, r, [(''primary'', primary)])
      | Inl e \<Rightarrow> (if e = NetworkXNoPath then Inr (h, r, []) else Inl e))"

section \<open>Predicates used in the statements and proofs\<close>

text \<open>The keys of the adjacency, without the attributes: the shape of the graph.\<close>

definition adj_keys :: "'k adjacency \<Rightarrow> ('k \<times> 'k list) list" where
  "adj_keys adj = map (\<lambda>un. (fst un, map fst (snd un))) adj"

definition same_shape :: "'k graph \<Rightarrow> 'k graph \<Rightarrow> bool" where
  "same_shape g g' \<longleftrightarrow>
     map fst (node_dict g') = map fst (node_dict g) \<and> adj_keys (adj_dict g') = adj_keys (adj_dict g)"

text \<open>A property of every edge attribute dictionary of the graph.\<close>

definition adj_all :: "(edge_attrs \<Rightarrow> bool) \<Rightarrow> 'k adjacency \<Rightarrow> bool" where
  "adj_all P adj = list_all (\<lambda>un. list_all (\<lambda>va. P (snd va)) (snd un)) adj"

text \<open>An edge key whose endpoints are nodes and which the adjacency holds.\<close>

definition edge_ok :: "'k graph \<Rightarrow> 'k \<times> 'k \<Rightarrow> bool" where
  "edge_ok g e \<longleftrightarrow>
     fst e \<in> set (map fst (node_dict g)) \<and> snd e \<in> set (map fst (node_dict g)) \<and>
     adj_lookup (adj_dict g) (fst e) (snd e) \<noteq> None"

definition item_ok :: "'k graph \<Rightarrow> ('k \<times> 'k) \<times> 'k flow_data \<Rightarrow> bool" where
  "item_ok g item \<longleftrightarrow>
     edge_ok g (fst item) \<and>
     (direction (snd item) = fst item \<or> direction (snd item) = (snd (fst item), fst (fst item)))"

text \<open>The invariants of the simulation, as checks over the whole graph.\<close>

definition nonneg_resources :: "'k graph \<Rightarrow> bool" where
  "nonneg_resources g =
     list_all (\<lambda>na. case resources (snd na) of None \<Rightarrow> True | Some r \<Rightarrow> 0 \<le> r) (node_dict g)"

definition nonneg_capacity :: "'k graph \<Rightarrow> bool" where
  "nonneg_capacity g =
     adj_all (\<lambda>a. case capacity a of None \<Rightarrow> True | Some c \<Rightarrow> 0 \<le> c) (adj_dict g)"

text \<open>
  The data model gives every edge a positive \<^verbatim>\<open>capacity\<close>; an edge without the
  attribute is read with the default 1, which is positive too.
\<close>

definition positive_capacity :: "'k graph \<Rightarrow> bool" where
  "positive_capacity g =
     adj_all (\<lambda>a. case capacity a of None \<Rightarrow> True | Some c \<Rightarrow> 0 < c) (adj_dict g)"

definition nonzero_capacity :: "'k graph \<Rightarrow> bool" where
  "nonzero_capacity g = adj_all (\<lambda>a. capacity a \<noteq> Some 0) (adj_dict g)"

definition strength_in_range :: "'k graph \<Rightarrow> bool" where
  "strength_in_range g =
     adj_all (\<lambda>a. case strength a of None \<Rightarrow> True | Some s \<Rightarrow> 0 \<le> s \<and> s \<le> 2) (adj_dict g)"

text \<open>The sum of all nodes' \<^verbatim>\<open>resources\<close>, an absent attribute counting as it is read: 0.\<close>

definition total_resources :: "'k graph \<Rightarrow> real" where
  "total_resources g =
     sum_list (map (\<lambda>na. case resources (snd na) of None \<Rightarrow> 0 | Some r \<Rightarrow> r) (node_dict g))"

text \<open>
  An entry of \<^verbatim>\<open>step_flows\<close> as the first phase computes it from the graph \<open>g\<close>.
\<close>

definition flow_item :: "'k graph \<Rightarrow> ('k \<times> 'k) \<times> 'k flow_data \<Rightarrow> bool" where
  "flow_item g item \<longleftrightarrow>
     (\<exists>r1 r2 c. get_resources g (fst (fst item)) = Inr r1 \<and>
        get_resources g (snd (fst item)) = Inr r2 \<and>
        get_capacity g (fst item) = Inr c \<and> r1 \<noteq> r2 \<and>
        snd item = \<lparr>direction = (if r1 > r2 then (fst (fst item), snd (fst item))
                                 else (snd (fst item), fst (fst item))),
                    amount = min c (\<bar>r1 - r2\<bar> * 0.1)\<rparr>)"

text \<open>
  Whether the flow record of a step has an entry for the edge between \<open>u\<close> and \<open>v\<close>
  (the record is keyed by the edge as \<^verbatim>\<open>graph.edges()\<close> reported it, in one of the two
  orders), and whether that entry's amount is not zero.
\<close>

definition recorded :: "'k step_flows \<Rightarrow> 'k \<Rightarrow> 'k \<Rightarrow> bool" where
  "recorded sf u v \<longleftrightarrow> (u, v) \<in> fst ` set sf \<or> (v, u) \<in> fst ` set sf"

definition carries_flow :: "'k step_flows \<Rightarrow> 'k \<Rightarrow> 'k \<Rightarrow> bool" where
  "carries_flow sf u v \<longleftrightarrow>
     (case map_of sf (u, v) of
        Some fd \<Rightarrow> amount fd \<noteq> 0
      | None \<Rightarrow> (case map_of sf (v, u) of Some fd \<Rightarrow> amount fd \<noteq> 0 | None \<Rightarrow> False))"

text \<open>
  Connectivity: \<open>u\<close> and \<open>v\<close> are adjacent when the adjacency holds the edge, and
  joined when a path of edges leads from one to the other.
\<close>

definition adjacent :: "'k graph \<Rightarrow> 'k \<Rightarrow> 'k \<Rightarrow> bool" where
  "adjacent g u v \<longleftrightarrow> adj_lookup (adj_dict g) u v \<noteq> None"

definition joined :: "'k graph \<Rightarrow> 'k \<Rightarrow> 'k \<Rightarrow> bool" where
  "joined g u v \<longleftrightarrow> (adjacent g)\<^sup>*\<^sup>* u v"

text \<open>An edge attribute dictionary with the three attributes of a healing connection.\<close>

definition healing_edge :: "real \<Rightarrow> edge_attrs \<Rightarrow> bool" where
  "healing_edge healing_factor e \<longleftrightarrow>
     strength e = Some healing_factor \<and> capacity e = Some 5 \<and> healing_connection e = Some True"

text \<open>A non-empty list of nodes of the graph that are connected to each other.\<close>

definition component_ok :: "'k graph \<Rightarrow> 'k list \<Rightarrow> bool" where
  "component_ok g c \<longleftrightarrow>
     c \<noteq> [] \<and> (\<forall>x\<in>set c. has_node g x) \<and> (\<forall>x\<in>set c. \<forall>y\<in>set c. joined g x y)"

text \<open>
  A path from \<open>s\<close> to \<open>t\<close>: a non-empty list of nodes, each adjacent to the next,
  that starts at \<open>s\<close> and ends at \<open>t\<close>. Its hop count is its length minus one.
\<close>

fun is_walk :: "'k graph \<Rightarrow> 'k list \<Rightarrow> bool" where
  "is_walk g [] = False"
| "is_walk g [x] = True"
| "is_walk g (x # y # ys) = (adjacent g x y \<and> is_walk g (y # ys))"

definition path_between :: "'k graph \<Rightarrow> 'k \<Rightarrow> 'k \<Rightarrow> 'k list \<Rightarrow> bool" where
  "path_between g s t p \<longleftrightarrow> is_walk g p \<and> hd p = s \<and> last p = t"

section \<open>The removal of damaged nodes, as the specification words it\<close>

text \<open>
  One damaged key. A key that is not a node leaves the graph as it is, and no action.
  A node holding \<open>R\<close> with the neighbours \<open>nbrs\<close> leaves the graph without the
  node and without its incident edges, in which every neighbour has \<open>R / k\<close> more
  \<^verbatim>\<open>resources\<close> than before, \<open>k\<close> being the number of neighbours, and every other
  attribute of every node and edge is as before; the one action names the node and
  \<open>R\<close>.
\<close>

definition spec_heal_node :: "'k graph \<Rightarrow> 'k \<Rightarrow> 'k graph \<times> 'k action list" where
  "spec_heal_node g node =
     (case map_of (node_dict g) node of
        None \<Rightarrow> (g, [])
      | Some attrs \<Rightarrow>
          (let R = (case resources attrs of None \<Rightarrow> 0 | Some x \<Rightarrow> x);
               nbrs = (case map_of (adj_dict g) node of None \<Rightarrow> [] | Some ns \<Rightarrow> map fst ns);
               share = R / real (length nbrs)
           in (\<lparr>node_dict =
                  map (\<lambda>(m, a). (m, if m \<in> set nbrs
                         then a\<lparr>resources :=
                                 Some ((case resources a of None \<Rightarrow> 0 | Some x \<Rightarrow> x) + share)\<rparr>
                         else a))
                    (filter (\<lambda>(m, a). m \<noteq> node) (node_dict g)),
                adj_dict =
                  map (\<lambda>(m, ns). (m, filter (\<lambda>(v, e). v \<noteq> node) ns))
                    (filter (\<lambda>(m, ns). m \<noteq> node) (adj_dict g))\<rparr>,
               [Removed node R])))"

text \<open>The damaged keys, one after the other in the order of the list.\<close>

fun spec_heal :: "'k graph \<Rightarrow> 'k list \<Rightarrow> 'k graph \<times> 'k action list" where
  "spec_heal g [] = (g, [])"
| "spec_heal g (node # rest) =
     (let first = spec_heal_node g node; others = spec_heal (fst first) rest
      in (fst others, snd first @ snd others))"

text \<open>The share added to the resources of the nodes of a list, as a map over the nodes.\<close>

definition add_share :: "'k list \<Rightarrow> real \<Rightarrow> 'k \<times> node_attrs \<Rightarrow> 'k \<times> node_attrs" where
  "add_share nbrs share p =
     (if fst p \<in> set nbrs
      then (fst p, (snd p)\<lparr>resources :=
              Some ((case resources (snd p) of None \<Rightarrow> 0 | Some x \<Rightarrow> x) + share)\<rparr>)
      else p)"

section \<open>Example graphs\<close>

text \<open>
  A node as \<^verbatim>\<open>add_mycelial_node\<close> creates it and an edge as
  \<^verbatim>\<open>add_mycelial_connection\<close> creates it, with the capacity left open.
\<close>

definition example_node :: "real \<Rightarrow> node_attrs" where
  "example_node r =
     \<lparr>resources = Some r, node_type = Some ''hyphal_tip'', health = Some 1, connections = Some 0\<rparr>"

definition example_edge :: "real option \<Rightarrow> edge_attrs" where
  "example_edge c =
     \<lparr>strength = Some 1, capacity = c, flow = Some 0, last_used = Some 0,
      healing_connection = None\<rparr>"

text \<open>Two nodes holding 10 and 0, joined by one edge of capacity \<open>c\<close>.\<close>

definition pair_graph :: "real option \<Rightarrow> nat graph" where
  "pair_graph c =
     \<lparr>node_dict = [(0, example_node 10), (1, example_node 0)],
      adj_dict = [(0, [(1, example_edge c)]), (1, [(0, example_edge c)])]\<rparr>"

text \<open>
  A star: the centre 0 holds 10, the leaves 1 to 11 hold 0, and no edge has a
  \<^verbatim>\<open>capacity\<close> attribute.
\<close>

definition star_graph :: "nat graph" where
  "star_graph =
     \<lparr>node_dict = (0, example_node 10) # map (\<lambda>i. (i, example_node 0)) [1, 2, 3, 4, 5, 6, 7, 8, 9, 10, 11],
      adj_dict = (0, map (\<lambda>i. (i, example_edge None)) [1, 2, 3, 4, 5, 6, 7, 8, 9, 10, 11])
        # map (\<lambda>i. (i, [(0, example_edge None)])) [1, 2, 3, 4, 5, 6, 7, 8, 9, 10, 11]\<rparr>"

text \<open>
  Two nodes joined by an edge, with optional attributes left out: node 1 has no
  \<^verbatim>\<open>resources\<close>, the edge has neither \<^verbatim>\<open>capacity\<close> nor \<^verbatim>\<open>strength\<close>.
\<close>

definition bare_graph :: "nat graph" where
  "bare_graph =
     \<lparr>node_dict = [(0, example_node 10), (1, bare_node)],
      adj_dict = [(0, [(1, bare_edge)]), (1, [(0, bare_edge)])]\<rparr>"



text \<open>
  A path 0 - 1 - 2 and an isolated node 3, holding 5, 30, 7 and 9; a generator.
\<close>

definition heal_graph :: "nat graph" where
  "heal_graph =
     \<lparr>node_dict = [(0, example_node 5), (1, example_node 30), (2, example_node 7),
                   (3, example_node 9)],
      adj_dict = [(0, [(1, example_edge (Some 10))]),
                  (1, [(0, example_edge (Some 10)), (2, example_edge (Some 10))]),
                  (2, [(1, example_edge (Some 10))]),
                  (3, [])]\<rparr>"

definition example_rng :: rng where
  "example_rng = \<lparr>floats = (\<lambda>i. if even i then 0.1 else 0.9), floats_used = 0,
                   picks = (\<lambda>i. i + 1), picks_used = 0\<rparr>"

section \<open>Basic facts about the graph operations\<close>

lemma bind_err_Inr [simp]: "bind_err (Inr x) f = f x"
  by (simp add: bind_err_def)

lemma bind_err_Inl [simp]: "bind_err (Inl e) f = Inl e"
  by (simp add: bind_err_def)

lemma bind_err_eq_Inr:
  "bind_err m f = Inr y \<longleftrightarrow> (\<exists>x. m = Inr x \<and> f x = Inr y)"
  by (cases m) simp_all

lemma map_fst_map_entry [simp]: "map fst (AList.map_entry k f xs) = map fst xs"
  by (induction xs) auto

lemma map_of_in_keys: "k \<in> fst ` set xs \<Longrightarrow> \<exists>y. map_of xs k = Some y"
  by (metis map_of_eq_None_iff not_Some_eq)

lemma map_of_Some_in_keys: "map_of xs k = Some y \<Longrightarrow> k \<in> fst ` set xs"
  by (metis map_of_eq_None_iff option.distinct(1))

lemma adj_keys_map_entry [simp]:
  "adj_keys (AList.map_entry u (AList.map_entry v f) adj) = adj_keys adj"
  by (induction adj) (auto simp: adj_keys_def)

lemma adj_keys_set_strength [simp]: "adj_keys (adj_set_strength u v x adj) = adj_keys adj"
  by (simp add: adj_set_strength_def)

lemma map_fst_adj_keys [simp]: "map fst (adj_keys adj) = map fst adj"
  by (simp add: adj_keys_def comp_def)

lemma adj_lookup_set_strength:
  "adj_lookup (adj_set_strength u v x adj) a b =
     (if a = u \<and> b = v then map_option (\<lambda>e. e\<lparr>strength := Some x\<rparr>) (adj_lookup adj u v)
      else adj_lookup adj a b)"
  by (auto simp: adj_lookup_def adj_set_strength_def map_of_map_entry split: option.splits)

lemma adj_entries_iff:
  assumes d: "distinct (map fst adj)"
  shows "list_all (\<lambda>un. distinct (map fst (snd un)) \<and>
        list_all (\<lambda>va. adj_lookup adj (fst va) (fst un) = Some (snd va)) (snd un)) adj \<longleftrightarrow>
     (\<forall>u nb. map_of adj u = Some nb \<longrightarrow> distinct (map fst nb)) \<and>
     (\<forall>u v a. adj_lookup adj u v = Some a \<longrightarrow> adj_lookup adj v u = Some a)"
    (is "?L \<longleftrightarrow> ?A \<and> ?B")
proof
  assume L: ?L
  have A: ?A
  proof (intro allI impI)
    fix u nb assume "map_of adj u = Some nb"
    then have "(u, nb) \<in> set adj" by (rule map_of_SomeD)
    with L show "distinct (map fst nb)" unfolding list_all_iff by force
  qed
  have ?B
  proof (intro allI impI)
    fix u v a assume "adj_lookup adj u v = Some a"
    then obtain nb where nb: "map_of adj u = Some nb" "map_of nb v = Some a"
      by (auto simp: adj_lookup_def split: option.splits)
    then have "(u, nb) \<in> set adj" "(v, a) \<in> set nb"
      by (auto dest: map_of_SomeD)
    with L have "list_all (\<lambda>va. adj_lookup adj (fst va) u = Some (snd va)) nb"
      unfolding list_all_iff by force
    with \<open>(v, a) \<in> set nb\<close> show "adj_lookup adj v u = Some a"
      unfolding list_all_iff by force
  qed
  with A show "?A \<and> ?B" ..
next
  assume AB: "?A \<and> ?B"
  show ?L unfolding list_all_iff
  proof (intro ballI conjI)
    fix un assume un: "un \<in> set adj"
    then have m: "map_of adj (fst un) = Some (snd un)"
      using d map_of_is_SomeI[of adj "fst un" "snd un"] by simp
    with AB show dn: "distinct (map fst (snd un))" by blast
    fix va assume "va \<in> set (snd un)"
    then have "map_of (snd un) (fst va) = Some (snd va)"
      using dn map_of_is_SomeI[of "snd un" "fst va" "snd va"] by simp
    with m have "adj_lookup adj (fst un) (fst va) = Some (snd va)"
      by (simp add: adj_lookup_def)
    with AB show "adj_lookup adj (fst va) (fst un) = Some (snd va)" by blast
  qed
qed

lemma wf_graph_iff:
  "wf_graph g \<longleftrightarrow>
     distinct (map fst (node_dict g)) \<and>
     map fst (adj_dict g) = map fst (node_dict g) \<and>
     (\<forall>u nb. map_of (adj_dict g) u = Some nb \<longrightarrow> distinct (map fst nb)) \<and>
     (\<forall>u v a. adj_lookup (adj_dict g) u v = Some a \<longrightarrow> adj_lookup (adj_dict g) v u = Some a)"
proof (cases "distinct (map fst (node_dict g)) \<and> map fst (adj_dict g) = map fst (node_dict g)")
  case True
  then have "distinct (map fst (adj_dict g))" by simp
  from adj_entries_iff[OF this] True show ?thesis
    unfolding wf_graph_def by blast
next
  case False
  then show ?thesis unfolding wf_graph_def by blast
qed



lemma same_shape_refl [simp]: "same_shape g g"
  by (simp add: same_shape_def)

lemma same_shape_trans: "same_shape g g1 \<Longrightarrow> same_shape g1 g2 \<Longrightarrow> same_shape g g2"
  by (simp add: same_shape_def)

lemma map_of_adj_keys: "map_of (adj_keys adj) u = map_option (map fst) (map_of adj u)"
  by (induction adj) (auto simp: adj_keys_def)

lemma adj_lookup_None_iff:
  "adj_lookup adj u v = None \<longleftrightarrow>
     (case map_of (adj_keys adj) u of None \<Rightarrow> True | Some ks \<Rightarrow> v \<notin> set ks)"
  by (auto simp: adj_lookup_def map_of_adj_keys map_of_eq_None_iff split: option.splits
      dest: map_of_Some_in_keys)

lemma edge_ok_shape: "same_shape g g' \<Longrightarrow> edge_ok g' e = edge_ok g e"
  by (simp add: edge_ok_def same_shape_def adj_lookup_None_iff)

lemma item_ok_shape: "same_shape g g' \<Longrightarrow> item_ok g' item = item_ok g item"
  by (simp add: item_ok_def edge_ok_shape)

lemma get_resources_Inr:
  "n \<in> set (map fst (node_dict g)) \<Longrightarrow> \<exists>r. get_resources g n = Inr r"
  using map_of_in_keys[of n "node_dict g"] by (auto simp: get_resources_def)

lemma set_resources_Inr:
  "n \<in> set (map fst (node_dict g)) \<Longrightarrow> \<exists>g'. set_resources g n v = Inr g'"
  using map_of_in_keys[of n "node_dict g"] by (auto simp: set_resources_def)

lemma set_resources_shape:
  "set_resources g n v = Inr g' \<Longrightarrow> adj_dict g' = adj_dict g \<and> same_shape g g'"
proof -
  assume a: "set_resources g n v = Inr g'"
  then obtain x where x: "map_of (node_dict g) n = Some x"
    and g': "g' = g\<lparr>node_dict := AList.update n (x\<lparr>resources := Some v\<rparr>) (node_dict g)\<rparr>"
    by (auto simp: set_resources_def split: option.splits)
  from x have "n \<in> set (map fst (node_dict g))"
    using map_of_Some_in_keys[of "node_dict g" n x] by simp
  then show ?thesis
    by (simp add: g' same_shape_def update_keys)
qed

lemma get_resources_set_resources:
  "set_resources g n v = Inr g' \<Longrightarrow>
     get_resources g' m = (if m = n then Inr v else get_resources g m)"
  by (auto simp: set_resources_def get_resources_def update_conv' split: option.splits if_splits)

lemma set_update_subset: "set (AList.update k v xs) \<subseteq> insert (k, v) (set xs)"
  by (induction xs) auto

lemma list_all_update: "P (k, v) \<Longrightarrow> list_all P xs \<Longrightarrow> list_all P (AList.update k v xs)"
  using set_update_subset[of k v xs] by (auto simp: list_all_iff)

lemma edges_getitem_Inr:
  "adj_lookup (adj_dict g) (fst e) (snd e) \<noteq> None \<Longrightarrow> \<exists>a. edges_getitem g e = Inr a"
  by (auto simp: edges_getitem_def)

lemma get_capacity_Inr: "edge_ok g e \<Longrightarrow> \<exists>c. get_capacity g e = Inr c"
  by (auto simp: get_capacity_def edges_getitem_def edge_ok_def)

lemma get_strength_Inr: "edge_ok g e \<Longrightarrow> \<exists>c. get_strength g e = Inr c"
  by (auto simp: get_strength_def edges_getitem_def edge_ok_def)

lemma set_strength_Inr: "edge_ok g e \<Longrightarrow> \<exists>g'. set_strength g e x = Inr g'"
  by (auto simp: set_strength_def edges_getitem_def edge_ok_def)

lemma set_strength_shape:
  "set_strength g e x = Inr g' \<Longrightarrow> node_dict g' = node_dict g \<and> same_shape g g'"
  by (auto simp: set_strength_def same_shape_def split: sum.splits)



lemma adj_lookup_set_strength_twice:
  "adj_lookup (adj_set_strength v u x (adj_set_strength u v x adj)) a b =
     (if (a, b) = (u, v) \<or> (b, a) = (u, v)
      then map_option (\<lambda>ea. ea\<lparr>strength := Some x\<rparr>) (adj_lookup adj a b)
      else adj_lookup adj a b)"
proof -
  let ?f = "\<lambda>ea::edge_attrs. ea\<lparr>strength := Some x\<rparr>"
  have ff: "map_option ?f (map_option ?f z) = map_option ?f z" for z
    by (cases z) simp_all
  consider (uv) "a = u" "b = v" | (vu) "a = v" "b = u" "\<not> (a = u \<and> b = v)"
    | (other) "\<not> (a = u \<and> b = v)" "\<not> (a = v \<and> b = u)"
    by blast
  then show ?thesis
  proof cases
    case uv
    show ?thesis
    proof (cases "u = v")
      case True
      show ?thesis unfolding uv True adj_lookup_set_strength
        by (simp only: ff prod.inject simp_thms if_True)
    next
      case False
      then have "\<not> (u = v \<and> v = u)" by blast
      then show ?thesis unfolding uv adj_lookup_set_strength
        by (simp only: prod.inject simp_thms if_True if_False)
    qed
  next
    case vu
    have "\<not> (v = u \<and> u = v)" using vu by blast
    then show ?thesis unfolding vu(1,2) adj_lookup_set_strength
      by (simp only: prod.inject simp_thms if_True if_False split: if_split)
  next
    case other
    then show ?thesis unfolding adj_lookup_set_strength
      by (simp only: prod.inject simp_thms if_False split: if_split) blast
  qed
qed

lemma adj_lookup_set_strength2:
  assumes "set_strength g e x = Inr g'"
  shows "adj_lookup (adj_dict g') a b =
     (if (a, b) = e \<or> (b, a) = e
      then map_option (\<lambda>ea. ea\<lparr>strength := Some x\<rparr>) (adj_lookup (adj_dict g) a b)
      else adj_lookup (adj_dict g) a b)"
proof -
  obtain u v where e: "e = (u, v)" by (cases e)
  from assms have "adj_dict g' = adj_set_strength (snd e) (fst e) x (adj_set_strength (fst e) (snd e) x (adj_dict g))"
    unfolding set_strength_def by (cases "edges_getitem g e") auto
  then have eq: "adj_dict g' = adj_set_strength v u x (adj_set_strength u v x (adj_dict g))"
    by (simp only: e fst_conv snd_conv)
  show ?thesis
    by (simp only: eq e adj_lookup_set_strength_twice)
qed

lemma nbr_distinct_keys:
  "(\<forall>u nb. map_of adj u = Some nb \<longrightarrow> distinct (map fst nb)) \<longleftrightarrow>
   (\<forall>u ks. map_of (adj_keys adj) u = Some ks \<longrightarrow> distinct ks)"
  by (auto simp: map_of_adj_keys)

lemma wf_set_resources:
  assumes "wf_graph g" "set_resources g n v = Inr g'"
  shows "wf_graph g'"
proof -
  from set_resources_shape[OF assms(2)]
  have "adj_dict g' = adj_dict g" "map fst (node_dict g') = map fst (node_dict g)"
    by (simp_all add: same_shape_def)
  with assms(1) show ?thesis unfolding wf_graph_iff by metis
qed

lemma wf_set_strength:
  assumes wf: "wf_graph g" and s: "set_strength g e x = Inr g'"
  shows "wf_graph g'"
proof -
  from set_strength_shape[OF s]
  have nd: "node_dict g' = node_dict g" and ak: "adj_keys (adj_dict g') = adj_keys (adj_dict g)"
    by (simp_all add: same_shape_def)
  from ak have mf: "map fst (adj_dict g') = map fst (adj_dict g)"
    by (metis map_fst_adj_keys)
  from wf have sym: "\<And>u v a. adj_lookup (adj_dict g) u v = Some a \<Longrightarrow> adj_lookup (adj_dict g) v u = Some a"
    unfolding wf_graph_iff by blast
  have sym': "adj_lookup (adj_dict g') v u = Some a" if h: "adj_lookup (adj_dict g') u v = Some a" for u v a
  proof (cases "(u, v) = e \<or> (v, u) = e")
    case True
    then have c: "(v, u) = e \<or> (u, v) = e" by blast
    from h True obtain a0 where a0: "adj_lookup (adj_dict g) u v = Some a0"
      and a: "a = a0\<lparr>strength := Some x\<rparr>"
      unfolding adj_lookup_set_strength2[OF s] by (cases "adj_lookup (adj_dict g) u v") auto
    from sym[OF a0] c show ?thesis
      unfolding adj_lookup_set_strength2[OF s] by (simp add: a)
  next
    case False
    then have c: "\<not> ((v, u) = e \<or> (u, v) = e)" by blast
    from h False have "adj_lookup (adj_dict g) u v = Some a"
      unfolding adj_lookup_set_strength2[OF s] by simp
    from sym[OF this] c show ?thesis
      unfolding adj_lookup_set_strength2[OF s] by simp
  qed
  from wf have "\<forall>u ks. map_of (adj_keys (adj_dict g)) u = Some ks \<longrightarrow> distinct ks"
    unfolding wf_graph_iff nbr_distinct_keys by blast
  then have "\<forall>u nb. map_of (adj_dict g') u = Some nb \<longrightarrow> distinct (map fst nb)"
    unfolding nbr_distinct_keys ak .
  with wf sym' show ?thesis
    unfolding wf_graph_iff nd mf by blast
qed



section \<open>Facts about the flow simulation\<close>

lemma edges_from_mem:
  "(u, v) \<in> set (edges_from seen adj) \<Longrightarrow>
     \<exists>nb. (u, nb) \<in> set adj \<and> v \<in> fst ` set nb \<and> v \<notin> set seen"
proof (induction adj arbitrary: seen)
  case Nil
  then show ?case by simp
next
  case (Cons un rest)
  from Cons.prems consider
    (hd) "u = fst un" "v \<in> fst ` set (snd un)" "v \<notin> set seen"
    | (tl) "(u, v) \<in> set (edges_from (fst un # seen) rest)"
    by auto
  then show ?case
  proof cases
    case hd
    then have "(u, snd un) \<in> set (un # rest)" by (cases un) simp
    with hd show ?thesis by blast
  next
    case tl
    from Cons.IH[OF tl] show ?thesis by auto
  qed
qed

lemma adj_lookup_SomeI:
  assumes "distinct (map fst adj)" "(u, nb) \<in> set adj" "v \<in> fst ` set nb"
  shows "\<exists>a. adj_lookup adj u v = Some a"
proof -
  from assms(1,2) have "map_of adj u = Some nb" by (rule map_of_is_SomeI)
  moreover from assms(3) obtain a where "map_of nb v = Some a"
    using map_of_in_keys by fastforce
  ultimately show ?thesis by (simp add: adj_lookup_def)
qed

lemma adj_lookup_Some_key:
  "adj_lookup adj u v = Some a \<Longrightarrow> u \<in> fst ` set adj"
  by (auto simp: adj_lookup_def split: option.splits dest: map_of_Some_in_keys)

lemma wf_adj_distinct: "wf_graph g \<Longrightarrow> distinct (map fst (adj_dict g))"
  by (simp add: wf_graph_def)

lemma wf_adj_sym:
  "wf_graph g \<Longrightarrow> adj_lookup (adj_dict g) u v = Some a \<Longrightarrow> adj_lookup (adj_dict g) v u = Some a"
  unfolding wf_graph_iff by blast

lemma wf_edge_ok:
  assumes wf: "wf_graph g" and l: "adj_lookup (adj_dict g) u v = Some a"
  shows "edge_ok g (u, v)"
proof -
  from wf have k: "map fst (adj_dict g) = map fst (node_dict g)" by (simp add: wf_graph_def)
  from adj_lookup_Some_key[OF l] have "u \<in> set (map fst (adj_dict g))" by simp
  moreover from adj_lookup_Some_key[OF wf_adj_sym[OF wf l]]
  have "v \<in> set (map fst (adj_dict g))" by simp
  ultimately show ?thesis using l unfolding edge_ok_def k by simp
qed

lemma wf_edges_ok:
  assumes wf: "wf_graph g" and e: "e \<in> set (edges g)"
  shows "edge_ok g e"
proof -
  obtain u v where uv: "e = (u, v)" by (cases e)
  from e obtain nb where "(u, nb) \<in> set (adj_dict g)" "v \<in> fst ` set nb"
    unfolding edges_def uv by (blast dest: edges_from_mem)
  from adj_lookup_SomeI[OF wf_adj_distinct[OF wf] this]
  obtain a where "adj_lookup (adj_dict g) u v = Some a" ..
  from wf_edge_ok[OF wf this] show ?thesis by (simp add: uv)
qed

lemma edge_flow_Inr:
  assumes "edge_ok g e"
  shows "\<exists>r1 r2 c. get_resources g (fst e) = Inr r1 \<and> get_resources g (snd e) = Inr r2 \<and>
     get_capacity g e = Inr c \<and>
     edge_flow g sf e = Inr (if r1 \<noteq> r2
       then AList.update e \<lparr>direction = (if r1 > r2 then (fst e, snd e) else (snd e, fst e)),
                              amount = min c (\<bar>r1 - r2\<bar> * 0.1)\<rparr> sf
       else sf)"
proof -
  from assms have n1: "fst e \<in> set (map fst (node_dict g))"
    and n2: "snd e \<in> set (map fst (node_dict g))"
    unfolding edge_ok_def by blast+
  from get_resources_Inr[OF n1] obtain r1 where r1: "get_resources g (fst e) = Inr r1" ..
  from get_resources_Inr[OF n2] obtain r2 where r2: "get_resources g (snd e) = Inr r2" ..
  from get_capacity_Inr[OF assms] obtain c where c: "get_capacity g e = Inr c" ..
  have "edge_flow g sf e = Inr (if r1 \<noteq> r2
       then AList.update e \<lparr>direction = (if r1 > r2 then (fst e, snd e) else (snd e, fst e)),
                              amount = min c (\<bar>r1 - r2\<bar> * 0.1)\<rparr> sf
       else sf)"
    by (simp add: edge_flow_def Let_def r1 r2 c)
  with r1 r2 c show ?thesis by blast
qed

lemma calc_flows_Inr:
  assumes "\<forall>e\<in>set es. edge_ok g e" "list_all (flow_item g) sf"
  shows "\<exists>sf'. calc_flows g es sf = Inr sf' \<and> list_all (flow_item g) sf' \<and>
     fst ` set sf' \<subseteq> fst ` set sf \<union> set es \<and>
     (distinct (map fst sf) \<longrightarrow> distinct (map fst sf'))"
  using assms
proof (induction es arbitrary: sf)
  case Nil
  then show ?case by simp
next
  case (Cons e es)
  then have ok: "edge_ok g e" by simp
  from edge_flow_Inr[OF ok, of sf] obtain r1 r2 c where
    r: "get_resources g (fst e) = Inr r1" "get_resources g (snd e) = Inr r2"
       "get_capacity g e = Inr c"
    and ef: "edge_flow g sf e = Inr (if r1 \<noteq> r2
       then AList.update e \<lparr>direction = (if r1 > r2 then (fst e, snd e) else (snd e, fst e)),
                              amount = min c (\<bar>r1 - r2\<bar> * 0.1)\<rparr> sf
       else sf)" by blast
  define sf1 where "sf1 = (if r1 \<noteq> r2
       then AList.update e \<lparr>direction = (if r1 > r2 then (fst e, snd e) else (snd e, fst e)),
                              amount = min c (\<bar>r1 - r2\<bar> * 0.1)\<rparr> sf
       else sf)"
  have fi: "list_all (flow_item g) sf1"
  proof (cases "r1 \<noteq> r2")
    case True
    then have "flow_item g (e, \<lparr>direction = (if r1 > r2 then (fst e, snd e) else (snd e, fst e)),
                              amount = min c (\<bar>r1 - r2\<bar> * 0.1)\<rparr>)"
      unfolding flow_item_def using r by simp
    with Cons.prems(2) True show ?thesis
      unfolding sf1_def by (simp add: list_all_update)
  next
    case False
    with Cons.prems(2) show ?thesis unfolding sf1_def by simp
  qed
  have keys: "fst ` set sf1 \<subseteq> fst ` set sf \<union> {e}"
    unfolding sf1_def by (auto simp: dom_update)
  have dist: "distinct (map fst sf) \<longrightarrow> distinct (map fst sf1)"
    unfolding sf1_def by (simp add: distinct_update)
  from Cons.prems(1) have "\<forall>e\<in>set es. edge_ok g e" by simp
  from Cons.IH[OF this fi] obtain sf' where
    sf': "calc_flows g es sf1 = Inr sf'" "list_all (flow_item g) sf'"
      "fst ` set sf' \<subseteq> fst ` set sf1 \<union> set es"
      "distinct (map fst sf1) \<longrightarrow> distinct (map fst sf')" by blast
  have "calc_flows g (e # es) sf = Inr sf'"
    using ef sf'(1) unfolding sf1_def by simp
  moreover have "fst ` set sf' \<subseteq> fst ` set sf \<union> set (e # es)"
    using sf'(3) keys by auto
  ultimately show ?case using sf'(2,4) dist by blast
qed

lemma flow_item_ok:
  assumes "flow_item g item" "edge_ok g (fst item)"
  shows "item_ok g item"
proof -
  from assms(1) obtain r1 r2 :: real where
    "direction (snd item) = (if r1 > r2 then (fst (fst item), snd (fst item))
                                 else (snd (fst item), fst (fst item)))"
    unfolding flow_item_def by fastforce
  then have "direction (snd item) = fst item \<or> direction (snd item) = (snd (fst item), fst (fst item))"
    by (cases "r1 > r2") simp_all
  with assms(2) show ?thesis by (simp add: item_ok_def)
qed

lemma adj_all_lookup:
  assumes "adj_all P adj" "adj_lookup adj u v = Some a"
  shows "P a"
proof -
  from assms(2) obtain nb where nb: "map_of adj u = Some nb" "map_of nb v = Some a"
    by (auto simp: adj_lookup_def split: option.splits)
  then have "(u, nb) \<in> set adj" "(v, a) \<in> set nb" by (auto dest: map_of_SomeD)
  with assms(1) show ?thesis unfolding adj_all_def list_all_iff by force
qed

lemma get_capacity_cases:
  assumes "get_capacity g e = Inr c"
  shows "\<exists>a. adj_lookup (adj_dict g) (fst e) (snd e) = Some a \<and>
     c = (case capacity a of None \<Rightarrow> 1 | Some x \<Rightarrow> x)"
  using assms by (auto simp: get_capacity_def edges_getitem_def split: option.splits sum.splits)

lemma get_strength_cases:
  assumes "get_strength g e = Inr c"
  shows "\<exists>a. adj_lookup (adj_dict g) (fst e) (snd e) = Some a \<and>
     c = (case strength a of None \<Rightarrow> 1 | Some x \<Rightarrow> x)"
  using assms by (auto simp: get_strength_def edges_getitem_def split: option.splits sum.splits)

lemma nonneg_capacity_get:
  assumes "nonneg_capacity g" "get_capacity g e = Inr c"
  shows "0 \<le> c"
proof -
  from get_capacity_cases[OF assms(2)] obtain a where
    a: "adj_lookup (adj_dict g) (fst e) (snd e) = Some a"
    and c: "c = (case capacity a of None \<Rightarrow> 1 | Some x \<Rightarrow> x)" by blast
  from adj_all_lookup[OF assms(1)[unfolded nonneg_capacity_def] a]
  show ?thesis unfolding c by (cases "capacity a") simp_all
qed

lemma nonzero_capacity_get:
  assumes "nonzero_capacity g" "get_capacity g e = Inr c"
  shows "c \<noteq> 0"
proof -
  from get_capacity_cases[OF assms(2)] obtain a where
    a: "adj_lookup (adj_dict g) (fst e) (snd e) = Some a"
    and c: "c = (case capacity a of None \<Rightarrow> 1 | Some x \<Rightarrow> x)" by blast
  from adj_all_lookup[OF assms(1)[unfolded nonzero_capacity_def] a]
  show ?thesis unfolding c by (cases "capacity a") simp_all
qed

lemma strength_in_range_get:
  assumes "strength_in_range g" "get_strength g e = Inr s"
  shows "0 \<le> s \<and> s \<le> 2"
proof -
  from get_strength_cases[OF assms(2)] obtain a where
    a: "adj_lookup (adj_dict g) (fst e) (snd e) = Some a"
    and c: "s = (case strength a of None \<Rightarrow> 1 | Some x \<Rightarrow> x)" by blast
  from adj_all_lookup[OF assms(1)[unfolded strength_in_range_def] a]
  show ?thesis unfolding c by (cases "strength a") simp_all
qed

lemma flow_item_amount_nonneg:
  assumes "flow_item g item" "nonneg_capacity g"
  shows "0 \<le> amount (snd item)"
proof -
  from assms(1) obtain r1 r2 c where c: "get_capacity g (fst item) = Inr c"
    and a: "amount (snd item) = min c (\<bar>r1 - r2\<bar> * 0.1)"
    unfolding flow_item_def by fastforce
  from nonneg_capacity_get[OF assms(2) c] show ?thesis unfolding a by simp
qed

lemma flow_item_amount_nonzero:
  assumes "flow_item g item" "nonzero_capacity g"
  shows "amount (snd item) \<noteq> 0"
proof -
  from assms(1) obtain r1 r2 c where c: "get_capacity g (fst item) = Inr c"
    and ne: "r1 \<noteq> r2"
    and a: "amount (snd item) = min c (\<bar>r1 - r2\<bar> * 0.1)"
    unfolding flow_item_def by fastforce
  from ne have "\<bar>r1 - r2\<bar> * 0.1 > 0" by simp
  with nonzero_capacity_get[OF assms(2) c] show ?thesis unfolding a
    by (simp add: min_def)
qed

lemma list_all_map_entry:
  assumes "\<And>a. P a \<Longrightarrow> P (f a)" "list_all (\<lambda>va. P (snd va)) nb"
  shows "list_all (\<lambda>va. P (snd va)) (AList.map_entry v f nb)"
  using assms(2) by (induction nb) (auto intro: assms(1))

lemma adj_all_set_strength:
  assumes "\<And>a. P a \<Longrightarrow> P (a\<lparr>strength := Some x\<rparr>)" "adj_all P adj"
  shows "adj_all P (adj_set_strength u v x adj)"
  using assms(2) unfolding adj_all_def adj_set_strength_def
  by (induction adj) (auto intro: list_all_map_entry assms(1))

lemma set_strength_adj_all:
  assumes "\<And>a. P a \<Longrightarrow> P (a\<lparr>strength := Some x\<rparr>)" "adj_all P (adj_dict g)"
    "set_strength g e x = Inr g'"
  shows "adj_all P (adj_dict g')"
proof -
  from assms(3) have "adj_dict g' =
      adj_set_strength (snd e) (fst e) x (adj_set_strength (fst e) (snd e) x (adj_dict g))"
    unfolding set_strength_def by (cases "edges_getitem g e") auto
  then show ?thesis
    using adj_all_set_strength[OF assms(1) adj_all_set_strength[OF assms(1) assms(2)]]
    by simp
qed

lemma nonneg_resources_get:
  assumes "nonneg_resources g" "get_resources g n = Inr r"
  shows "0 \<le> r"
proof -
  from assms(2) obtain a where a: "map_of (node_dict g) n = Some a"
    and r: "r = (case resources a of None \<Rightarrow> 0 | Some x \<Rightarrow> x)"
    by (auto simp: get_resources_def split: option.splits)
  from a have "(n, a) \<in> set (node_dict g)" by (rule map_of_SomeD)
  with assms(1) have "case resources a of None \<Rightarrow> True | Some r \<Rightarrow> 0 \<le> r"
    unfolding nonneg_resources_def list_all_iff by force
  then show ?thesis unfolding r by (cases "resources a") simp_all
qed

lemma nonneg_set_resources:
  assumes "nonneg_resources g" "0 \<le> v" "set_resources g n v = Inr g'"
  shows "nonneg_resources g'"
proof -
  from assms(3) obtain a where
    g': "g' = g\<lparr>node_dict := AList.update n (a\<lparr>resources := Some v\<rparr>) (node_dict g)\<rparr>"
    by (auto simp: set_resources_def split: option.splits)
  show ?thesis using assms(1,2) unfolding nonneg_resources_def g'
    by (simp add: list_all_update)
qed

lemma apply_flow_decomp:
  assumes "item_ok g item"
  shows "\<exists>cf ct g1 g2 cs g'.
     get_resources g (fst (direction (snd item))) = Inr cf \<and>
     get_resources g (snd (direction (snd item))) = Inr ct \<and>
     set_resources g (fst (direction (snd item))) (max 0 (cf - amount (snd item))) = Inr g1 \<and>
     set_resources g1 (snd (direction (snd item))) (ct + amount (snd item)) = Inr g2 \<and>
     get_strength g2 (fst item) = Inr cs \<and>
     set_strength g2 (fst item) (min 2 (cs + 0.1)) = Inr g' \<and>
     apply_flow g item = Inr g'"
proof -
  let ?f = "fst (direction (snd item))" and ?t = "snd (direction (snd item))"
  from assms have ok: "edge_ok g (fst item)"
    and d: "direction (snd item) = fst item \<or> direction (snd item) = (snd (fst item), fst (fst item))"
    unfolding item_ok_def by blast+
  from ok have n1: "fst (fst item) \<in> set (map fst (node_dict g))"
    and n2: "snd (fst item) \<in> set (map fst (node_dict g))"
    unfolding edge_ok_def by blast+
  have f: "?f \<in> set (map fst (node_dict g))"
    using d
  proof
    assume "direction (snd item) = fst item"
    then show ?thesis using n1 by (simp only:)
  next
    assume "direction (snd item) = (snd (fst item), fst (fst item))"
    then show ?thesis using n2 by (simp only: fst_conv)
  qed
  have t: "?t \<in> set (map fst (node_dict g))"
    using d
  proof
    assume "direction (snd item) = fst item"
    then show ?thesis using n2 by (simp only:)
  next
    assume "direction (snd item) = (snd (fst item), fst (fst item))"
    then show ?thesis using n1 by (simp only: snd_conv)
  qed
  from get_resources_Inr[OF f] obtain cf where cf: "get_resources g ?f = Inr cf" ..
  from get_resources_Inr[OF t] obtain ct where ct: "get_resources g ?t = Inr ct" ..
  from set_resources_Inr[OF f] obtain g1 where
    g1: "set_resources g ?f (max 0 (cf - amount (snd item))) = Inr g1" ..
  from set_resources_shape[OF g1] have s1: "same_shape g g1" ..
  then have "?t \<in> set (map fst (node_dict g1))" using t by (simp add: same_shape_def)
  from set_resources_Inr[OF this] obtain g2 where
    g2: "set_resources g1 ?t (ct + amount (snd item)) = Inr g2" ..
  from set_resources_shape[OF g2] have s2: "same_shape g1 g2" ..
  from ok have ok2: "edge_ok g2 (fst item)"
    using edge_ok_shape[OF same_shape_trans[OF s1 s2]] by simp
  from get_strength_Inr[OF ok2] obtain cs where cs: "get_strength g2 (fst item) = Inr cs" ..
  from set_strength_Inr[OF ok2] obtain g' where
    g': "set_strength g2 (fst item) (min 2 (cs + 0.1)) = Inr g'" ..
  have "apply_flow g item = Inr g'"
    by (simp add: apply_flow_def Let_def cf ct g1 g2 cs g')
  with cf ct g1 g2 cs g' show ?thesis by blast
qed

lemma apply_flow_shape:
  assumes "item_ok g item" "apply_flow g item = Inr g'"
  shows "same_shape g g'"
proof -
  from apply_flow_decomp[OF assms(1)] assms(2) obtain cf ct g1 g2 cs where
    g1: "set_resources g (fst (direction (snd item))) (max 0 (cf - amount (snd item))) = Inr g1"
    and g2: "set_resources g1 (snd (direction (snd item))) (ct + amount (snd item)) = Inr g2"
    and g': "set_strength g2 (fst item) (min 2 (cs + 0.1)) = Inr g'"
    by auto
  from set_resources_shape[OF g1] set_resources_shape[OF g2] set_strength_shape[OF g']
  show ?thesis by (blast intro: same_shape_trans)
qed

lemma apply_flow_wf:
  assumes "item_ok g item" "apply_flow g item = Inr g'" "wf_graph g"
  shows "wf_graph g'"
proof -
  from apply_flow_decomp[OF assms(1)] assms(2) obtain cf ct g1 g2 cs where
    g1: "set_resources g (fst (direction (snd item))) (max 0 (cf - amount (snd item))) = Inr g1"
    and g2: "set_resources g1 (snd (direction (snd item))) (ct + amount (snd item)) = Inr g2"
    and g': "set_strength g2 (fst item) (min 2 (cs + 0.1)) = Inr g'"
    by auto
  from wf_set_strength[OF wf_set_resources[OF wf_set_resources[OF assms(3) g1] g2] g']
  show ?thesis .
qed

lemma apply_flow_adj_all:
  assumes "item_ok g item" "apply_flow g item = Inr g'"
    and "\<And>a x. P a \<Longrightarrow> P (a\<lparr>strength := Some x\<rparr>)" and "adj_all P (adj_dict g)"
  shows "adj_all P (adj_dict g')"
proof -
  from apply_flow_decomp[OF assms(1)] assms(2) obtain cf ct g1 g2 cs where
    g1: "set_resources g (fst (direction (snd item))) (max 0 (cf - amount (snd item))) = Inr g1"
    and g2: "set_resources g1 (snd (direction (snd item))) (ct + amount (snd item)) = Inr g2"
    and g': "set_strength g2 (fst item) (min 2 (cs + 0.1)) = Inr g'"
    by auto
  from set_resources_shape[OF g1] set_resources_shape[OF g2]
  have "adj_dict g2 = adj_dict g" by simp
  with assms(4) have "adj_all P (adj_dict g2)" by simp
  from set_strength_adj_all[of P, OF assms(3) this g'] show ?thesis .
qed

lemma apply_flow_nonneg:
  assumes "item_ok g item" "apply_flow g item = Inr g'"
    and "nonneg_resources g" "0 \<le> amount (snd item)"
  shows "nonneg_resources g'"
proof -
  from apply_flow_decomp[OF assms(1)] assms(2) obtain cf ct g1 g2 cs where
    ct: "get_resources g (snd (direction (snd item))) = Inr ct"
    and g1: "set_resources g (fst (direction (snd item))) (max 0 (cf - amount (snd item))) = Inr g1"
    and g2: "set_resources g1 (snd (direction (snd item))) (ct + amount (snd item)) = Inr g2"
    and g': "set_strength g2 (fst item) (min 2 (cs + 0.1)) = Inr g'"
    by auto
  from nonneg_resources_get[OF assms(3) ct] assms(4) have "0 \<le> ct + amount (snd item)" by simp
  from nonneg_set_resources[OF nonneg_set_resources[OF assms(3) _ g1] this g2]
  have "nonneg_resources g2" by simp
  moreover from set_strength_shape[OF g'] have "node_dict g' = node_dict g2" ..
  ultimately show ?thesis by (simp add: nonneg_resources_def)
qed

lemma apply_flow_strength_in_range:
  assumes "item_ok g item" "apply_flow g item = Inr g'" "strength_in_range g"
  shows "strength_in_range g'"
proof -
  from apply_flow_decomp[OF assms(1)] assms(2) obtain cf ct g1 g2 cs where
    g1: "set_resources g (fst (direction (snd item))) (max 0 (cf - amount (snd item))) = Inr g1"
    and g2: "set_resources g1 (snd (direction (snd item))) (ct + amount (snd item)) = Inr g2"
    and cs: "get_strength g2 (fst item) = Inr cs"
    and g': "set_strength g2 (fst item) (min 2 (cs + 0.1)) = Inr g'"
    by auto
  from set_resources_shape[OF g1] set_resources_shape[OF g2]
  have "adj_dict g2 = adj_dict g" by simp
  with assms(3) have r2: "strength_in_range g2" by (simp add: strength_in_range_def)
  from strength_in_range_get[OF r2 cs] have x: "0 \<le> min 2 (cs + 0.1) \<and> min 2 (cs + 0.1) \<le> 2"
    by simp
  let ?P = "\<lambda>a::edge_attrs. case strength a of None \<Rightarrow> True | Some s \<Rightarrow> 0 \<le> s \<and> s \<le> 2"
  have "\<And>a. ?P a \<Longrightarrow> ?P (a\<lparr>strength := Some (min 2 (cs + 0.1))\<rparr>)"
    using x by simp
  from set_strength_adj_all[of ?P, OF this r2[unfolded strength_in_range_def] g']
  show ?thesis by (simp add: strength_in_range_def)
qed

lemma apply_flow_strength:
  assumes ok: "item_ok g item" and ap: "apply_flow g item = Inr g'" and wf: "wf_graph g"
    and s: "get_strength g (a, b) = Inr s"
  shows "get_strength g' (a, b) =
     Inr (if (a, b) = fst item \<or> (b, a) = fst item then min 2 (s + 0.1) else s)"
proof -
  from apply_flow_decomp[OF ok] ap obtain cf ct g1 g2 cs where
    g1: "set_resources g (fst (direction (snd item))) (max 0 (cf - amount (snd item))) = Inr g1"
    and g2: "set_resources g1 (snd (direction (snd item))) (ct + amount (snd item)) = Inr g2"
    and cs: "get_strength g2 (fst item) = Inr cs"
    and g': "set_strength g2 (fst item) (min 2 (cs + 0.1)) = Inr g'"
    by auto
  from set_resources_shape[OF g1] set_resources_shape[OF g2]
  have adj: "adj_dict g2 = adj_dict g" by simp
  from get_strength_cases[OF s] obtain ea where
    ea: "adj_lookup (adj_dict g) a b = Some ea"
    and sv: "s = (case strength ea of None \<Rightarrow> 1 | Some x \<Rightarrow> x)" by auto
  show ?thesis
  proof (cases "(a, b) = fst item \<or> (b, a) = fst item")
    case True
    have "adj_lookup (adj_dict g) (fst (fst item)) (snd (fst item)) = Some ea"
      using True
    proof
      assume "(a, b) = fst item"
      then have "fst (fst item) = a" "snd (fst item) = b" by (metis fst_conv, metis snd_conv)
      with ea show ?thesis by simp
    next
      assume "(b, a) = fst item"
      then have "fst (fst item) = b" "snd (fst item) = a" by (metis fst_conv, metis snd_conv)
      with wf_adj_sym[OF wf ea] show ?thesis by simp
    qed
    with cs have "cs = s"
      unfolding sv by (simp add: get_strength_def edges_getitem_def adj)
    moreover have "adj_lookup (adj_dict g') a b = Some (ea\<lparr>strength := Some (min 2 (cs + 0.1))\<rparr>)"
      unfolding adj_lookup_set_strength2[OF g'] adj using True ea by simp
    ultimately show ?thesis using True
      by (simp add: get_strength_def edges_getitem_def)
  next
    case False
    have "adj_lookup (adj_dict g') a b = Some ea"
      unfolding adj_lookup_set_strength2[OF g'] adj using False ea by simp
    then show ?thesis using False sv
      by (simp add: get_strength_def edges_getitem_def)
  qed
qed

lemma apply_flows_invariant:
  assumes "list_all (item_ok g) sf" "I g"
    and step: "\<And>h item h'. item \<in> set sf \<Longrightarrow> item_ok h item \<Longrightarrow> I h \<Longrightarrow>
       apply_flow h item = Inr h' \<Longrightarrow> I h'"
  shows "\<exists>g'. apply_flows g sf = Inr g' \<and> same_shape g g' \<and> I g'"
  using assms
proof (induction sf arbitrary: g)
  case Nil
  then show ?case by simp
next
  case (Cons item items)
  from Cons.prems(1) have ok: "item_ok g item" and oks: "list_all (item_ok g) items" by simp_all
  from apply_flow_decomp[OF ok] obtain g1 where g1: "apply_flow g item = Inr g1" by blast
  from apply_flow_shape[OF ok g1] have sh: "same_shape g g1" .
  from Cons.prems(3)[OF _ ok Cons.prems(2) g1] have I1: "I g1" by simp
  have "item_ok g1 = item_ok g" by (rule ext) (rule item_ok_shape[OF sh])
  with oks have oks1: "list_all (item_ok g1) items" by simp
  have "\<exists>g'. apply_flows g1 items = Inr g' \<and> same_shape g1 g' \<and> I g'"
  proof (rule Cons.IH[OF oks1 I1])
    fix h it h'
    assume "it \<in> set items" "item_ok h it" "I h" "apply_flow h it = Inr h'"
    then show "I h'" using Cons.prems(3)[of it h h'] by simp
  qed
  then obtain g' where "apply_flows g1 items = Inr g'" "same_shape g1 g'" "I g'" by blast
  with g1 sh show ?case by (auto intro: same_shape_trans)
qed

lemma nonneg_capacity_stable:
  "(case capacity a of None \<Rightarrow> True | Some c \<Rightarrow> (0::real) \<le> c) \<Longrightarrow>
   (case capacity (a\<lparr>strength := Some x\<rparr>) of None \<Rightarrow> True | Some c \<Rightarrow> 0 \<le> c)"
  by simp

lemma flow_step_props:
  fixes g :: "'a graph"
  assumes wf: "wf_graph g"
  shows "\<exists>g' sf. flow_step g = Inr (g', sf) \<and> wf_graph g' \<and> same_shape g g' \<and>
     list_all (flow_item g) sf \<and> list_all (item_ok g) sf \<and>
     fst ` set sf \<subseteq> set (edges g) \<and> distinct (map fst sf) \<and>
     (nonneg_capacity g \<longrightarrow> nonneg_capacity g') \<and>
     (nonzero_capacity g \<longrightarrow> nonzero_capacity g') \<and>
     (strength_in_range g \<longrightarrow> strength_in_range g') \<and>
     (nonneg_resources g \<and> nonneg_capacity g \<longrightarrow> nonneg_resources g')"
proof -
  have eok: "\<forall>e\<in>set (edges g). edge_ok g e" using wf_edges_ok[OF wf] by blast
  from calc_flows_Inr[OF eok, of "[]"] obtain sf where
    sf: "calc_flows g (edges g) [] = Inr sf" and fi: "list_all (flow_item g) sf"
    and keys: "fst ` set sf \<subseteq> set (edges g)" and dist: "distinct (map fst sf)"
    by auto
  have iok: "list_all (item_ok g) sf"
    unfolding list_all_iff
  proof
    fix item assume i: "item \<in> set sf"
    with fi have "flow_item g item" by (simp add: list_all_iff)
    moreover from i keys eok have "edge_ok g (fst item)" by auto
    ultimately show "item_ok g item" by (rule flow_item_ok)
  qed
  define I where "I = (\<lambda>h::'a graph. wf_graph h \<and>
     (nonneg_capacity g \<longrightarrow> nonneg_capacity h) \<and>
     (nonzero_capacity g \<longrightarrow> nonzero_capacity h) \<and>
     (strength_in_range g \<longrightarrow> strength_in_range h) \<and>
     (nonneg_resources g \<and> nonneg_capacity g \<longrightarrow> nonneg_resources h))"
  have I0: "I g" using wf by (simp add: I_def)
  have "\<exists>g'. apply_flows g sf = Inr g' \<and> same_shape g g' \<and> I g'"
  proof (rule apply_flows_invariant[where I = I and g = g and sf = sf, OF iok I0])
    fix h item h'
    assume i: "item \<in> set sf" and ok: "item_ok h item" and Ih: "I h"
      and ap: "apply_flow h item = Inr h'"
    from i fi have fit: "flow_item g item" by (simp add: list_all_iff)
    have 1: "wf_graph h'" using apply_flow_wf[OF ok ap] Ih by (simp add: I_def)
    have 2: "nonneg_capacity g \<longrightarrow> nonneg_capacity h'"
      using apply_flow_adj_all[OF ok ap, of "\<lambda>a. case capacity a of None \<Rightarrow> True | Some c \<Rightarrow> 0 \<le> c"] Ih
      by (simp add: I_def nonneg_capacity_def)
    have 3: "nonzero_capacity g \<longrightarrow> nonzero_capacity h'"
      using apply_flow_adj_all[OF ok ap, of "\<lambda>a. capacity a \<noteq> Some 0"] Ih
      by (simp add: I_def nonzero_capacity_def)
    have 4: "strength_in_range g \<longrightarrow> strength_in_range h'"
      using apply_flow_strength_in_range[OF ok ap] Ih by (simp add: I_def)
    have 5: "nonneg_resources g \<and> nonneg_capacity g \<longrightarrow> nonneg_resources h'"
    proof
      assume a: "nonneg_resources g \<and> nonneg_capacity g"
      then have "nonneg_resources h" using Ih by (simp add: I_def)
      moreover from a flow_item_amount_nonneg[OF fit] have "0 \<le> amount (snd item)" by simp
      ultimately show "nonneg_resources h'" by (rule apply_flow_nonneg[OF ok ap])
    qed
    from 1 2 3 4 5 show "I h'" by (simp add: I_def)
  qed
  then obtain g' where g': "apply_flows g sf = Inr g'" "same_shape g g'" "I g'" by blast
  have "flow_step g = Inr (g', sf)" by (simp add: flow_step_def sf g')
  with g' fi iok keys dist show ?thesis unfolding I_def by blast
qed

lemma flow_loop_invariant:
  assumes "wf_graph g" "I g"
    and step: "\<And>h h' sf. wf_graph h \<Longrightarrow> I h \<Longrightarrow> flow_step h = Inr (h', sf) \<Longrightarrow> I h'"
  shows "\<exists>g' hist'. flow_loop n g hist = Inr (g', hist') \<and> wf_graph g' \<and> I g' \<and> same_shape g g'"
  using assms(1,2)
proof (induction n arbitrary: g hist)
  case 0
  then show ?case by simp
next
  case (Suc n)
  from flow_step_props[OF Suc.prems(1)] obtain g1 sf where
    s: "flow_step g = Inr (g1, sf)" and wf1: "wf_graph g1" and sh: "same_shape g g1" by blast
  from step[OF Suc.prems s] have I1: "I g1" .
  from Suc.IH[OF wf1 I1, of "hist @ [sf]"] obtain g' hist' where
    "flow_loop n g1 (hist @ [sf]) = Inr (g', hist')" "wf_graph g'" "I g'" "same_shape g1 g'"
    by blast
  with s sh show ?case by (auto intro: same_shape_trans)
qed

lemma edges_from_props:
  assumes "distinct (map fst adj)" "\<forall>un\<in>set adj. distinct (map fst (snd un))"
  shows "distinct (edges_from seen adj) \<and>
     (\<forall>u v. (u, v) \<in> set (edges_from seen adj) \<longrightarrow> u \<noteq> v \<longrightarrow>
        (v, u) \<notin> set (edges_from seen adj))"
  using assms
proof (induction adj arbitrary: seen)
  case Nil
  then show ?case by simp
next
  case (Cons un rest)
  let ?H = "map (\<lambda>nbr. (fst un, nbr)) (filter (\<lambda>nbr. nbr \<notin> set seen) (map fst (snd un)))"
  let ?T = "edges_from (fst un # seen) rest"
  from Cons.prems have d: "distinct (map fst rest)" "\<forall>un\<in>set rest. distinct (map fst (snd un))"
    and nu: "fst un \<notin> fst ` set rest" and dn: "distinct (map fst (snd un))"
    by auto
  from Cons.IH[OF d, of "fst un # seen"] have IH1: "distinct ?T"
    and IH2: "\<And>u v. (u, v) \<in> set ?T \<Longrightarrow> u \<noteq> v \<Longrightarrow> (v, u) \<notin> set ?T"
    by blast+
  have T1: "a \<noteq> fst un \<and> b \<noteq> fst un" if "(a, b) \<in> set ?T" for a b
  proof -
    from edges_from_mem[OF that] obtain nb where "(a, nb) \<in> set rest" "b \<notin> set (fst un # seen)"
      by blast
    then have "a \<in> fst ` set rest" "b \<noteq> fst un"
      by (metis fst_conv image_eqI, simp)
    with nu show ?thesis by metis
  qed
  have H1: "a = fst un" if "(a, b) \<in> set ?H" for a b using that by auto
  have dH: "distinct ?H"
    using dn by (simp add: distinct_map inj_on_def)
  have disj: "set ?H \<inter> set ?T = {}"
  proof (rule ccontr)
    assume "set ?H \<inter> set ?T \<noteq> {}"
    then obtain a b where "(a, b) \<in> set ?H" "(a, b) \<in> set ?T" by auto
    with H1 T1 show False by blast
  qed
  have e: "edges_from seen (un # rest) = ?H @ ?T" by simp
  have 1: "distinct (edges_from seen (un # rest))"
    unfolding e using dH IH1 disj by simp
  have 2: "(v, u) \<notin> set (edges_from seen (un # rest))"
    if m: "(u, v) \<in> set (edges_from seen (un # rest))" and ne: "u \<noteq> v" for u v
  proof
    assume m': "(v, u) \<in> set (edges_from seen (un # rest))"
    from m have c1: "(u, v) \<in> set ?H \<or> (u, v) \<in> set ?T" unfolding e by simp
    from m' have c2: "(v, u) \<in> set ?H \<or> (v, u) \<in> set ?T" unfolding e by simp
    from c1 c2 show False
    proof (elim disjE)
      assume "(u, v) \<in> set ?H" "(v, u) \<in> set ?H"
      with H1 ne show False by blast
    next
      assume "(u, v) \<in> set ?H" "(v, u) \<in> set ?T"
      with H1 T1 show False by blast
    next
      assume "(u, v) \<in> set ?T" "(v, u) \<in> set ?H"
      with H1 T1 show False by blast
    next
      assume "(u, v) \<in> set ?T" "(v, u) \<in> set ?T"
      with IH2 ne show False by blast
    qed
  qed
  from 1 2 show ?case by blast
qed

lemma wf_nbr_distinct: "wf_graph g \<Longrightarrow> \<forall>un\<in>set (adj_dict g). distinct (map fst (snd un))"
  by (simp add: wf_graph_def list_all_iff)

lemma wf_edges_props:
  assumes "wf_graph g"
  shows "distinct (edges g)"
    and "(u, v) \<in> set (edges g) \<Longrightarrow> u \<noteq> v \<Longrightarrow> (v, u) \<notin> set (edges g)"
  using edges_from_props[OF wf_adj_distinct[OF assms] wf_nbr_distinct[OF assms], of "[]"]
  unfolding edges_def by blast+

lemma apply_flows_strength:
  assumes "list_all (item_ok g) sf" "wf_graph g" "distinct (map fst sf)"
    and "\<forall>u v. (u, v) \<in> fst ` set sf \<longrightarrow> u \<noteq> v \<longrightarrow> (v, u) \<notin> fst ` set sf"
    and "apply_flows g sf = Inr g'" and "get_strength g (a, b) = Inr s"
  shows "get_strength g' (a, b) =
     Inr (if (a, b) \<in> fst ` set sf \<or> (b, a) \<in> fst ` set sf then min 2 (s + 0.1) else s)"
  using assms
proof (induction sf arbitrary: g s)
  case Nil
  then show ?case by simp
next
  case (Cons item items)
  from Cons.prems(1) have ok: "item_ok g item" and oks: "list_all (item_ok g) items" by simp_all
  from apply_flow_decomp[OF ok] obtain g1 where g1: "apply_flow g item = Inr g1" by blast
  with Cons.prems(5) have rest: "apply_flows g1 items = Inr g'" by simp
  from apply_flow_shape[OF ok g1] have sh: "same_shape g g1" .
  have "item_ok g1 = item_ok g" by (rule ext) (rule item_ok_shape[OF sh])
  with oks have oks1: "list_all (item_ok g1) items" by simp
  from apply_flow_wf[OF ok g1 Cons.prems(2)] have wf1: "wf_graph g1" .
  from Cons.prems(3) have d1: "distinct (map fst items)" and nk: "fst item \<notin> fst ` set items"
    by auto
  have sub: "fst ` set items \<subseteq> fst ` set (item # items)"
    by (simp add: subset_insertI)
  have ns1:
    "\<forall>u v. (u, v) \<in> fst ` set items \<longrightarrow> u \<noteq> v \<longrightarrow> (v, u) \<notin> fst ` set items"
  proof (intro allI impI)
    fix u v assume "(u, v) \<in> fst ` set items" "u \<noteq> v"
    with sub Cons.prems(4) have "(v, u) \<notin> fst ` set (item # items)" by blast
    with sub show "(v, u) \<notin> fst ` set items" by blast
  qed
  let ?hit = "(a, b) = fst item \<or> (b, a) = fst item"
  let ?s1 = "if ?hit then min 2 (s + 0.1) else s"
  from apply_flow_strength[OF ok g1 Cons.prems(2,6)]
  have s1: "get_strength g1 (a, b) = Inr ?s1" .
  from Cons.IH[OF oks1 wf1 d1 ns1 rest s1]
  have IH: "get_strength g' (a, b) =
     Inr (if (a, b) \<in> fst ` set items \<or> (b, a) \<in> fst ` set items then min 2 (?s1 + 0.1) else ?s1)" .
  show ?case
  proof (cases ?hit)
    case True
    have n1: "(a, b) \<notin> fst ` set items"
    proof
      assume m: "(a, b) \<in> fst ` set items"
      from True show False
      proof
        assume "(a, b) = fst item" with m nk show False by simp
      next
        assume e: "(b, a) = fst item"
        then have "(b, a) \<in> fst ` set (item # items)" by simp
        moreover from m sub have "(a, b) \<in> fst ` set (item # items)" by blast
        ultimately have "a = b" using Cons.prems(4) by blast
        with e m nk show False by simp
      qed
    qed
    have n2: "(b, a) \<notin> fst ` set items"
    proof
      assume m: "(b, a) \<in> fst ` set items"
      from True show False
      proof
        assume "(b, a) = fst item" with m nk show False by simp
      next
        assume e: "(a, b) = fst item"
        then have "(a, b) \<in> fst ` set (item # items)" by simp
        moreover from m sub have "(b, a) \<in> fst ` set (item # items)" by blast
        ultimately have "a = b" using Cons.prems(4) by blast
        with e m nk show False by simp
      qed
    qed
    from True have "(a, b) \<in> fst ` set (item # items) \<or> (b, a) \<in> fst ` set (item # items)"
      by (metis image_eqI list.set_intros(1))
    with IH n1 n2 True show ?thesis by simp
  next
    case False
    then have "(a, b) \<in> fst ` set (item # items) \<longleftrightarrow> (a, b) \<in> fst ` set items"
      "(b, a) \<in> fst ` set (item # items) \<longleftrightarrow> (b, a) \<in> fst ` set items"
      by (simp_all del: prod.inject)
    with IH False show ?thesis by simp
  qed
qed

lemma flow_loop_Suc:
  "flow_loop n g hist = Inr (gn, hn) \<Longrightarrow> flow_step gn = Inr (g', sf) \<Longrightarrow>
   flow_loop (Suc n) g hist = Inr (g', hn @ [sf])"
proof (induction n arbitrary: g hist)
  case 0
  then show ?case by simp
next
  case (Suc n)
  from Suc.prems(1) obtain g1 sf1 where s1: "flow_step g = Inr (g1, sf1)"
    and l: "flow_loop n g1 (hist @ [sf1]) = Inr (gn, hn)"
    by (cases "flow_step g") auto
  from Suc.IH[OF l Suc.prems(2)] have "flow_loop (Suc n) g1 (hist @ [sf1]) = Inr (g', hn @ [sf])" .
  then show ?case unfolding flow_loop.simps(2)[of "Suc n" g hist] s1 by simp
qed

lemma recorded_carries_flow:
  assumes fi: "list_all (flow_item g) sf" and nz: "nonzero_capacity g"
  shows "recorded sf u v = carries_flow sf u v"
proof -
  have amt: "amount fd \<noteq> 0" if "map_of sf e = Some fd" for e fd
  proof -
    from that have "(e, fd) \<in> set sf" by (rule map_of_SomeD)
    with fi have "flow_item g (e, fd)" by (simp add: list_all_iff)
    from flow_item_amount_nonzero[OF this nz] show ?thesis by simp
  qed
  have key: "(e \<in> fst ` set sf) = (map_of sf e \<noteq> None)" for e
    by (simp add: map_of_eq_None_iff)
  show ?thesis
  proof (cases "map_of sf (u, v)")
    case (Some fd)
    with amt[OF Some] show ?thesis by (simp add: recorded_def carries_flow_def key)
  next
    case None
    show ?thesis
    proof (cases "map_of sf (v, u)")
      case (Some fd)
      with amt[OF Some] None show ?thesis by (simp add: recorded_def carries_flow_def key)
    next
      case None2: None
      with None show ?thesis by (simp add: recorded_def carries_flow_def key)
    qed
  qed
qed

lemma flow_step_strength:
  assumes wf: "wf_graph g" and st: "flow_step g = Inr (g', sf)"
    and s: "get_strength g (u, v) = Inr s"
  shows "get_strength g' (u, v) = Inr (if recorded sf u v then min 2 (s + 0.1) else s)"
proof -
  from flow_step_props[OF wf] st have iok: "list_all (item_ok g) sf"
    and keys: "fst ` set sf \<subseteq> set (edges g)" and dist: "distinct (map fst sf)"
    by auto
  from st have ap: "apply_flows g sf = Inr g'"
    unfolding flow_step_def by (auto simp: bind_err_eq_Inr)
  have ns: "\<forall>a b. (a, b) \<in> fst ` set sf \<longrightarrow> a \<noteq> b \<longrightarrow> (b, a) \<notin> fst ` set sf"
  proof (intro allI impI)
    fix a b assume "(a, b) \<in> fst ` set sf" "a \<noteq> b"
    with keys wf_edges_props(2)[OF wf, of a b] have "(b, a) \<notin> set (edges g)" by blast
    with keys show "(b, a) \<notin> fst ` set sf" by blast
  qed
  from apply_flows_strength[OF iok wf dist ns ap s] show ?thesis
    by (simp only: recorded_def)
qed

lemma positive_capacity_iff:
  "positive_capacity g \<longleftrightarrow> nonneg_capacity g \<and> nonzero_capacity g"
  unfolding positive_capacity_def nonneg_capacity_def nonzero_capacity_def adj_all_def list_all_iff
  by (auto split: option.splits) fastforce+


lemma calc_flows_keys:
  assumes "\<forall>e\<in>set es. edge_ok g e" "calc_flows g es sf = Inr sf'"
  shows "fst ` set sf' =
     fst ` set sf \<union> {e \<in> set es. get_resources g (fst e) \<noteq> get_resources g (snd e)}"
  using assms
proof (induction es arbitrary: sf)
  case Nil
  then show ?case by simp
next
  case (Cons e es)
  from Cons.prems(1) have ok: "edge_ok g e" and oks: "\<forall>e\<in>set es. edge_ok g e" by simp_all
  from edge_flow_Inr[OF ok, of sf] obtain r1 r2 c where
    r1: "get_resources g (fst e) = Inr r1" and r2: "get_resources g (snd e) = Inr r2" and
    ef: "edge_flow g sf e = Inr (if r1 \<noteq> r2
       then AList.update e \<lparr>direction = (if r1 > r2 then (fst e, snd e) else (snd e, fst e)),
                              amount = min c (\<bar>r1 - r2\<bar> * 0.1)\<rparr> sf
       else sf)" by blast
  show ?case
  proof (cases "r1 = r2")
    case True
    with ef Cons.prems(2) have "calc_flows g es sf = Inr sf'" by simp
    from Cons.IH[OF oks this] True r1 r2 show ?thesis by auto
  next
    case False
    define sf1 where "sf1 = AList.update e \<lparr>direction = (if r1 > r2 then (fst e, snd e) else (snd e, fst e)),
                              amount = min c (\<bar>r1 - r2\<bar> * 0.1)\<rparr> sf"
    from False ef Cons.prems(2) have "calc_flows g es sf1 = Inr sf'" by (simp add: sf1_def)
    from Cons.IH[OF oks this] have
      "fst ` set sf' = fst ` set sf1 \<union> {e \<in> set es. get_resources g (fst e) \<noteq> get_resources g (snd e)}" .
    moreover have "fst ` set sf1 = insert e (fst ` set sf)"
      unfolding sf1_def dom_map_of_conv_image_fst[symmetric] update_conv' by simp
    ultimately show ?thesis using False r1 r2 by auto
  qed
qed

lemmas bare_eval = bare_graph_def bare_node_def bare_edge_def

section \<open>The claims about the flow simulation\<close>

lemmas graph_eval = wf_graph_def adj_lookup_def nonneg_resources_def nonneg_capacity_def
  nonzero_capacity_def strength_in_range_def adj_all_def total_resources_def
  example_node_def example_edge_def pair_graph_def star_graph_def
  nutrient_flow_simulation_def flow_step_def edges_def edge_flow_def apply_flow_def
  get_resources_def set_resources_def get_capacity_def get_strength_def set_strength_def
  edges_getitem_def adj_set_strength_def bind_err_def Let_def

text \<open>
  Claim C1 (flow conservation) at the star graph. The centre holds 10 and has eleven
  leaves holding 0. Each edge records a flow of \<open>min 1 (0.1 * 10) = 1\<close> from the centre.
  The apply phase debits the centre eleven times, the last debit clamped at 0, and
  credits every leaf the unclamped amount 1: all resources are non-negative, the sum
  before the apply phase is 10 and the sum after it is 11.
\<close>

theorem apply_phase_creates_resources:
  "wf_graph star_graph \<and> nonneg_resources star_graph \<and> total_resources star_graph = 10 \<and>
   (\<exists>step_flows g'. calc_flows star_graph (edges star_graph) [] = Inr step_flows \<and>
      apply_flows star_graph step_flows = Inr g' \<and> total_resources g' = 11)"
  by (simp add: graph_eval)

text \<open>
  Claim C3: the flow history returned by \<^verbatim>\<open>nutrient_flow_simulation\<close> and the graph it
  leaves behind do not depend on the arguments \<^verbatim>\<open>source_nodes\<close> and \<^verbatim>\<open>sink_nodes\<close>:
  any two choices of them give the same result on the same graph and number of steps.
\<close>

theorem simulation_ignores_sources_and_sinks:
  "nutrient_flow_simulation g source_nodes sink_nodes time_steps =
   nutrient_flow_simulation g source_nodes' sink_nodes' time_steps"
  by (simp add: nutrient_flow_simulation_def)

text \<open>
  Claim C6 (flow non-negativity). On a graph of the data model (positive capacities)
  whose nodes all start with non-negative \<^verbatim>\<open>resources\<close>, for every number of time
  steps and every choice of the unused arguments, the graph that
  \<^verbatim>\<open>nutrient_flow_simulation\<close> leaves behind has non-negative \<^verbatim>\<open>resources\<close> on
  every node. Every individual step preserves the invariant: the graph that a step
  leaves behind is again well formed, has non-negative resources and positive
  capacities, so that the next step starts from such a graph.
\<close>

theorem flow_keeps_resources_nonneg:
  fixes g :: "'a graph"
  assumes "wf_graph g" "nonneg_resources g" "positive_capacity g"
  shows "(\<forall>g' hist. nutrient_flow_simulation g source_nodes sink_nodes time_steps = Inr (g', hist)
            \<longrightarrow> nonneg_resources g') \<and>
         (\<forall>g' step_flows. flow_step g = Inr (g', step_flows)
            \<longrightarrow> wf_graph g' \<and> nonneg_resources g' \<and> positive_capacity g')"
proof -
  define I where "I = (\<lambda>h::'a graph. nonneg_resources h \<and> positive_capacity h)"
  have step: "I h'" if wf: "wf_graph h" and Ih: "I h" and s: "flow_step h = Inr (h', sf)"
    for h h' :: "'a graph" and sf
  proof -
    from flow_step_props[OF wf] s have
      "nonneg_capacity h \<longrightarrow> nonneg_capacity h'" "nonzero_capacity h \<longrightarrow> nonzero_capacity h'"
      "nonneg_resources h \<and> nonneg_capacity h \<longrightarrow> nonneg_resources h'"
      by simp_all
    with Ih show ?thesis unfolding I_def positive_capacity_iff by blast
  qed
  have "\<exists>g' hist'. flow_loop (nat time_steps) g [] = Inr (g', hist') \<and> wf_graph g' \<and> I g' \<and>
     same_shape g g'"
  proof (rule flow_loop_invariant[where I = I, OF assms(1)])
    show "I g" using assms(2,3) by (simp add: I_def)
  qed (rule step)
  then have a: "\<forall>g' hist. nutrient_flow_simulation g source_nodes sink_nodes time_steps = Inr (g', hist)
            \<longrightarrow> nonneg_resources g'"
    by (auto simp: nutrient_flow_simulation_def I_def)
  have b: "\<forall>g' step_flows. flow_step g = Inr (g', step_flows)
            \<longrightarrow> wf_graph g' \<and> nonneg_resources g' \<and> positive_capacity g'"
  proof (intro allI impI)
    fix g' step_flows assume s: "flow_step g = Inr (g', step_flows)"
    from flow_step_props[OF assms(1)] s have "wf_graph g'" by simp
    moreover from step[OF assms(1) _ s] assms(2,3) have "I g'" by (simp add: I_def)
    ultimately show "wf_graph g' \<and> nonneg_resources g' \<and> positive_capacity g'"
      by (simp add: I_def)
  qed
  from a b show ?thesis by blast
qed

theorem flow_keeps_resources_nonneg_witness:
  "wf_graph (pair_graph (Some 10)) \<and> nonneg_resources (pair_graph (Some 10)) \<and>
   positive_capacity (pair_graph (Some 10)) \<and>
   (\<exists>g' hist. nutrient_flow_simulation (pair_graph (Some 10)) [] [] 2 = Inr (g', hist) \<and>
      nonneg_resources g') \<and>
   (\<exists>g' step_flows. flow_step (pair_graph (Some 10)) = Inr (g', step_flows) \<and>
      wf_graph g' \<and> nonneg_resources g' \<and> positive_capacity g')"
proof -
  have h: "wf_graph (pair_graph (Some 10))" "nonneg_resources (pair_graph (Some 10))"
    "positive_capacity (pair_graph (Some 10))"
    by (simp_all add: graph_eval positive_capacity_def)
  have r: "\<exists>g' hist. nutrient_flow_simulation (pair_graph (Some 10)) [] [] 2 = Inr (g', hist)"
    by (simp add: graph_eval numeral_eq_Suc)
  have s: "\<exists>g' step_flows. flow_step (pair_graph (Some 10)) = Inr (g', step_flows)"
    by (simp add: graph_eval)
  from flow_keeps_resources_nonneg[OF h, of "[]" "[]" 2] h r s show ?thesis by blast
qed


text \<open>
  Claim C2 as stated fails for \<^verbatim>\<open>capacity\<close>: an edge without the attribute is read
  with capacity 1, not 0. Between nodes holding 10 and 0 such an edge records the flow
  \<open>min 1 (0.1 * 10) = 1\<close>; a capacity read as 0 would record 0.
\<close>

theorem missing_capacity_reads_as_one:
  "adj_lookup (adj_dict (pair_graph None)) 0 1 = Some (example_edge None) \<and>
   capacity (example_edge None) = None \<and>
   get_capacity (pair_graph None) (0, 1) = Inr 1 \<and>
   get_capacity (pair_graph None) (0, 1) \<noteq> Inr 0 \<and>
   (\<exists>g'. nutrient_flow_simulation (pair_graph None) [] [] 1 =
      Inr (g', [[((0, 1), \<lparr>direction = (0, 1), amount = 1\<rparr>)]]))"
  by (simp add: graph_eval numeral_eq_Suc)

text \<open>
  Claim C2, amended: the simulation reads a node without \<^verbatim>\<open>resources\<close> as holding 0,
  an edge without \<^verbatim>\<open>capacity\<close> with capacity 1 and an edge without \<^verbatim>\<open>strength\<close>
  with strength 1.0, and no absent attribute makes it fail. For every edge \<open>(u, v)\<close>
  that \<^verbatim>\<open>graph.edges()\<close> reports on a graph the library can build, let \<open>r1\<close>, \<open>r2\<close>,
  \<open>c\<close> and \<open>s\<close> be the attributes of the two nodes and of the edge with these
  defaults in the place of an absent one. A step returns; its flow record has no entry
  for the edge when \<open>r1 = r2\<close>, and otherwise the entry with the direction from the
  larger to the smaller of \<open>r1\<close> and \<open>r2\<close> and the amount
  \<open>min c (\<bar>r1 - r2\<bar> * 0.1)\<close>; the strength of the edge after the step is \<open>s\<close> in
  the first case and \<open>min 2 (s + 0.1)\<close> in the second. The graph the step leaves is
  again one the library can build, so the same holds for every later step.
\<close>

theorem missing_attributes_default:
  fixes g :: "'k graph"
  assumes wf: "wf_graph g" and e: "(u, v) \<in> set (edges g)"
    and a1: "map_of (node_dict g) u = Some a1" and a2: "map_of (node_dict g) v = Some a2"
    and ea: "adj_lookup (adj_dict g) u v = Some ea"
  shows "\<exists>g' step_flows.
     flow_step g = Inr (g', step_flows) \<and>
     nutrient_flow_simulation g source_nodes sink_nodes 1 = Inr (g', [step_flows]) \<and>
     wf_graph g' \<and>
     (let r1 = (case resources a1 of None \<Rightarrow> 0 | Some r \<Rightarrow> r);
          r2 = (case resources a2 of None \<Rightarrow> 0 | Some r \<Rightarrow> r);
          c = (case capacity ea of None \<Rightarrow> 1 | Some c \<Rightarrow> c);
          s = (case strength ea of None \<Rightarrow> 1 | Some s \<Rightarrow> s)
      in map_of step_flows (u, v) =
           (if r1 = r2 then None
            else Some \<lparr>direction = (if r1 > r2 then (u, v) else (v, u)),
                       amount = min c (\<bar>r1 - r2\<bar> * 0.1)\<rparr>) \<and>
         get_strength g' (u, v) = Inr (if r1 = r2 then s else min 2 (s + 0.1)))"
proof -
  define r1 where "r1 = (case resources a1 of None \<Rightarrow> 0 | Some r \<Rightarrow> r)"
  define r2 where "r2 = (case resources a2 of None \<Rightarrow> 0 | Some r \<Rightarrow> r)"
  define c where "c = (case capacity ea of None \<Rightarrow> 1 | Some c \<Rightarrow> c)"
  define s where "s = (case strength ea of None \<Rightarrow> 1 | Some s \<Rightarrow> s)"
  have g1: "get_resources g u = Inr r1" and g2: "get_resources g v = Inr r2"
    using a1 a2 by (simp_all add: get_resources_def r1_def r2_def)
  have gc: "get_capacity g (u, v) = Inr c" and gs: "get_strength g (u, v) = Inr s"
    using ea by (simp_all add: get_capacity_def get_strength_def edges_getitem_def c_def s_def)
  from flow_step_props[OF wf] obtain g' sf where
    st: "flow_step g = Inr (g', sf)" and wf': "wf_graph g'" and
    fi: "list_all (flow_item g) sf" and dist: "distinct (map fst sf)" by blast
  from st have sim: "nutrient_flow_simulation g source_nodes sink_nodes 1 = Inr (g', [sf])"
    by (simp add: nutrient_flow_simulation_def)
  from st have calc: "calc_flows g (edges g) [] = Inr sf"
    unfolding flow_step_def by (auto simp: bind_err_eq_Inr)
  have eok: "\<forall>e\<in>set (edges g). edge_ok g e" using wf_edges_ok[OF wf] by blast
  from calc_flows_keys[OF eok calc] have keys:
    "fst ` set sf = {e \<in> set (edges g). get_resources g (fst e) \<noteq> get_resources g (snd e)}"
    by simp
  have rec: "map_of sf (u, v) =
           (if r1 = r2 then None
            else Some \<lparr>direction = (if r1 > r2 then (u, v) else (v, u)),
                       amount = min c (\<bar>r1 - r2\<bar> * 0.1)\<rparr>)"
    and rd: "recorded sf u v \<longleftrightarrow> r1 \<noteq> r2"
  proof -
    show "recorded sf u v \<longleftrightarrow> r1 \<noteq> r2"
      unfolding recorded_def keys using e g1 g2 by auto
    show "map_of sf (u, v) =
           (if r1 = r2 then None
            else Some \<lparr>direction = (if r1 > r2 then (u, v) else (v, u)),
                       amount = min c (\<bar>r1 - r2\<bar> * 0.1)\<rparr>)"
    proof (cases "r1 = r2")
      case True
      then have "(u, v) \<notin> fst ` set sf" unfolding keys using g1 g2 by simp
      then have "map_of sf (u, v) = None" by (simp add: map_of_eq_None_iff)
      with True show ?thesis by simp
    next
      case False
      then have "(u, v) \<in> fst ` set sf" unfolding keys using e g1 g2 by simp
      then obtain fd where m: "((u, v), fd) \<in> set sf" by auto
      with fi have "flow_item g ((u, v), fd)" by (simp add: list_all_iff)
      with g1 g2 gc have "fd = \<lparr>direction = (if r1 > r2 then (u, v) else (v, u)),
                       amount = min c (\<bar>r1 - r2\<bar> * 0.1)\<rparr>"
        unfolding flow_item_def by auto
      moreover from dist m have "map_of sf (u, v) = Some fd" by simp
      ultimately show ?thesis using False by simp
    qed
  qed
  from flow_step_strength[OF wf st gs] rd
  have str: "get_strength g' (u, v) = Inr (if r1 = r2 then s else min 2 (s + 0.1))" by simp
  from st sim wf' rec str show ?thesis
    unfolding Let_def r1_def r2_def c_def s_def by blast
qed

theorem missing_attributes_default_witness:
  "wf_graph bare_graph \<and> (0, 1) \<in> set (edges bare_graph) \<and>
   map_of (node_dict bare_graph) 0 = Some (example_node 10) \<and>
   map_of (node_dict bare_graph) 1 = Some bare_node \<and> resources bare_node = None \<and>
   adj_lookup (adj_dict bare_graph) 0 1 = Some bare_edge \<and>
   capacity bare_edge = None \<and> strength bare_edge = None \<and>
   (\<exists>g' step_flows.
      flow_step bare_graph = Inr (g', step_flows) \<and>
      nutrient_flow_simulation bare_graph [] [] 1 = Inr (g', [step_flows]) \<and>
      map_of step_flows (0, 1) = Some \<lparr>direction = (0, 1), amount = 1\<rparr> \<and>
      get_strength g' (0, 1) = Inr 1.1)"
proof -
  have h: "wf_graph bare_graph" "(0, 1) \<in> set (edges bare_graph)"
    "map_of (node_dict bare_graph) 0 = Some (example_node 10)"
    "map_of (node_dict bare_graph) 1 = Some bare_node"
    "adj_lookup (adj_dict bare_graph) 0 1 = Some bare_edge"
    by (simp_all add: graph_eval bare_eval)
  have v: "resources bare_node = None" "capacity bare_edge = None" "strength bare_edge = None"
    "resources (example_node 10) = Some 10"
    by (simp_all add: bare_eval example_node_def)
  from missing_attributes_default[OF h, of "[]" "[]"] h v show ?thesis
    by (auto simp: Let_def)
qed

section \<open>Facts about self-healing\<close>

lemma fold_map_entry_keys [simp]:
  "map fst (fold (\<lambda>u. AList.map_entry u f) us adj) = map fst adj"
  by (induction us arbitrary: adj) simp_all

lemma map_of_fold_map_entry:
  assumes "\<And>x. f (f x) = f x"
  shows "map_of (fold (\<lambda>u. AList.map_entry u f) us adj) w =
     (if w \<in> set us then map_option f (map_of adj w) else map_of adj w)"
proof (induction us arbitrary: adj)
  case Nil
  then show ?case by simp
next
  case (Cons u us)
  have "map_of (fold (\<lambda>u. AList.map_entry u f) (u # us) adj) w =
     (if w \<in> set us then map_option f (map_of (AList.map_entry u f adj) w)
      else map_of (AList.map_entry u f adj) w)"
    using Cons.IH[of "AList.map_entry u f adj"] by simp
  also have "\<dots> = (if w \<in> set (u # us) then map_option f (map_of adj w) else map_of adj w)"
    by (cases "map_of adj w") (auto simp: map_of_map_entry assms)
  finally show ?case .
qed

lemma has_node_adj_key:
  assumes "wf_graph g"
  shows "has_node g n \<longleftrightarrow> (\<exists>nbrs. map_of (adj_dict g) n = Some nbrs)"
proof -
  from assms have k: "map fst (adj_dict g) = map fst (node_dict g)" by (simp add: wf_graph_def)
  have "has_node g n \<longleftrightarrow> n \<in> fst ` set (adj_dict g)"
    unfolding has_node_def k[symmetric] by simp
  also have "\<dots> \<longleftrightarrow> (\<exists>nbrs. map_of (adj_dict g) n = Some nbrs)"
    by (metis map_of_in_keys map_of_Some_in_keys)
  finally show ?thesis .
qed

lemma remove_node_adj_lookup:
  assumes wf: "wf_graph g" and rm: "remove_node g n = Inr g'"
  shows "adj_lookup (adj_dict g') u v =
     (if u = n \<or> v = n then None else adj_lookup (adj_dict g) u v)"
proof -
  from rm obtain nbrs where nb: "map_of (adj_dict g) n = Some nbrs"
    and g': "g' = \<lparr>node_dict = AList.delete n (node_dict g),
               adj_dict = AList.delete n
                 (fold (\<lambda>u. AList.map_entry u (AList.delete n)) (map fst nbrs) (adj_dict g))\<rparr>"
    by (auto simp: remove_node_def split: option.splits)
  have idem: "\<And>x::('a \<times> edge_attrs) list. AList.delete n (AList.delete n x) = AList.delete n x"
    by (simp add: delete_idem)
  have m: "map_of (adj_dict g') w =
     (if w = n then None
      else if w \<in> set (map fst nbrs) then map_option (AList.delete n) (map_of (adj_dict g) w)
      else map_of (adj_dict g) w)" for w
    unfolding g' by (simp add: delete_conv' map_of_fold_map_entry[where f = "AList.delete n", OF idem])
  show ?thesis
  proof (cases "u = n")
    case True
    then show ?thesis by (simp add: adj_lookup_def m)
  next
    case un: False
    show ?thesis
    proof (cases "u \<in> set (map fst nbrs)")
      case True
      with un show ?thesis
        by (cases "map_of (adj_dict g) u") (auto simp: adj_lookup_def m delete_conv')
    next
      case False
      have "adj_lookup (adj_dict g) u n = None"
      proof (rule ccontr)
        assume "adj_lookup (adj_dict g) u n \<noteq> None"
        then obtain a where "adj_lookup (adj_dict g) u n = Some a" by blast
        from wf_adj_sym[OF wf this] have "adj_lookup (adj_dict g) n u = Some a" .
        with nb have "map_of nbrs u = Some a" by (simp add: adj_lookup_def)
        from map_of_Some_in_keys[OF this] False show False by simp
      qed
      moreover have "adj_lookup (adj_dict g') u v = adj_lookup (adj_dict g) u v"
        using un False by (simp add: adj_lookup_def m)
      ultimately show ?thesis using un by auto
    qed
  qed
qed

lemma remove_node_props:
  assumes wf: "wf_graph g" and rm: "remove_node g n = Inr g'"
  shows "node_dict g' = AList.delete n (node_dict g)" and "wf_graph g'" and "\<not> has_node g' n"
proof -
  from rm obtain nbrs where nb: "map_of (adj_dict g) n = Some nbrs"
    and g': "g' = \<lparr>node_dict = AList.delete n (node_dict g),
               adj_dict = AList.delete n
                 (fold (\<lambda>u. AList.map_entry u (AList.delete n)) (map fst nbrs) (adj_dict g))\<rparr>"
    by (auto simp: remove_node_def split: option.splits)
  show nd: "node_dict g' = AList.delete n (node_dict g)" by (simp add: g')
  show "\<not> has_node g' n" unfolding has_node_def nd by (simp add: delete_keys)
  from wf have d: "distinct (map fst (node_dict g))"
    and k: "map fst (adj_dict g) = map fst (node_dict g)"
    and dn: "\<And>u nb. map_of (adj_dict g) u = Some nb \<Longrightarrow> distinct (map fst nb)"
    unfolding wf_graph_iff by blast+
  have idem: "\<And>x::('a \<times> edge_attrs) list. AList.delete n (AList.delete n x) = AList.delete n x"
    by (simp add: delete_idem)
  have m: "map_of (adj_dict g') w =
     (if w = n then None
      else if w \<in> set (map fst nbrs) then map_option (AList.delete n) (map_of (adj_dict g) w)
      else map_of (adj_dict g) w)" for w
    unfolding g' by (simp add: delete_conv' map_of_fold_map_entry[where f = "AList.delete n", OF idem])
  have 1: "distinct (map fst (node_dict g'))" unfolding nd using d by (simp add: distinct_delete)
  have 2: "map fst (adj_dict g') = map fst (node_dict g')"
    unfolding nd by (simp add: g' delete_keys k)
  have 3: "\<forall>u nb. map_of (adj_dict g') u = Some nb \<longrightarrow> distinct (map fst nb)"
  proof (intro allI impI)
    fix u nb assume a: "map_of (adj_dict g') u = Some nb"
    then obtain nb0 where nb0: "map_of (adj_dict g) u = Some nb0"
      and c: "nb = AList.delete n nb0 \<or> nb = nb0"
      unfolding m by (cases "map_of (adj_dict g) u") (auto split: if_splits)
    from dn[OF nb0] c show "distinct (map fst nb)" by (auto simp: distinct_delete)
  qed
  have 4: "\<forall>u v a. adj_lookup (adj_dict g') u v = Some a \<longrightarrow> adj_lookup (adj_dict g') v u = Some a"
  proof (intro allI impI)
    fix u v a assume a: "adj_lookup (adj_dict g') u v = Some a"
    then have ne: "u \<noteq> n" "v \<noteq> n" and "adj_lookup (adj_dict g) u v = Some a"
      unfolding remove_node_adj_lookup[OF wf rm] by (auto split: if_splits)
    from wf_adj_sym[OF wf this(3)] ne show "adj_lookup (adj_dict g') v u = Some a"
      unfolding remove_node_adj_lookup[OF wf rm] by simp
  qed
  from 1 2 3 4 show "wf_graph g'" unfolding wf_graph_iff by blast
qed

lemma remove_node_Inr:
  assumes "wf_graph g" "has_node g n"
  shows "\<exists>g'. remove_node g n = Inr g'"
  using assms has_node_adj_key[OF assms(1), of n] by (auto simp: remove_node_def)

lemma remove_node_get_resources:
  assumes "wf_graph g" "remove_node g n = Inr g'" "m \<noteq> n"
  shows "get_resources g' m = get_resources g m"
  using remove_node_props(1)[OF assms(1,2)] assms(3) by (simp add: get_resources_def)

lemma neighbors_wf:
  assumes wf: "wf_graph g" and hn: "has_node g n"
  shows "\<exists>nbrs. neighbors g n = Inr nbrs \<and> distinct nbrs \<and> (\<forall>u\<in>set nbrs. has_node g u) \<and>
     (\<forall>u. u \<in> set nbrs \<longleftrightarrow> adj_lookup (adj_dict g) n u \<noteq> None)"
proof -
  from hn has_node_adj_key[OF wf] obtain nb where nb: "map_of (adj_dict g) n = Some nb" by blast
  have 1: "neighbors g n = Inr (map fst nb)" by (simp add: neighbors_def nb)
  from wf nb have 2: "distinct (map fst nb)" unfolding wf_graph_iff by blast
  have 4: "u \<in> set (map fst nb) \<longleftrightarrow> adj_lookup (adj_dict g) n u \<noteq> None" for u
    by (simp add: adj_lookup_def nb map_of_eq_None_iff)
  have 3: "\<forall>u\<in>set (map fst nb). has_node g u"
  proof
    fix u assume "u \<in> set (map fst nb)"
    with 4 obtain a where "adj_lookup (adj_dict g) n u = Some a" by blast
    from wf_edge_ok[OF wf this] show "has_node g u" by (simp add: edge_ok_def has_node_def)
  qed
  from 1 2 3 4 show ?thesis by blast
qed

lemma has_node_shape: "same_shape g g' \<Longrightarrow> has_node g' n = has_node g n"
  by (simp add: has_node_def same_shape_def)

lemma redistribute_props:
  assumes "wf_graph g" "\<forall>u\<in>set nbrs. has_node g u" "distinct nbrs"
  shows "\<exists>g1. redistribute g share nbrs = Inr g1 \<and> adj_dict g1 = adj_dict g \<and>
     same_shape g g1 \<and> wf_graph g1 \<and>
     (\<forall>m r. get_resources g m = Inr r \<longrightarrow>
        get_resources g1 m = Inr (if m \<in> set nbrs then r + share else r))"
  using assms
proof (induction nbrs arbitrary: g)
  case Nil
  then show ?case by simp
next
  case (Cons u rest)
  from Cons.prems(2) have hu: "u \<in> set (map fst (node_dict g))" by (simp add: has_node_def)
  from get_resources_Inr[OF hu] obtain cu where cu: "get_resources g u = Inr cu" ..
  from set_resources_Inr[OF hu] obtain g' where g': "set_resources g u (cu + share) = Inr g'" ..
  from set_resources_shape[OF g'] have adj': "adj_dict g' = adj_dict g" and sh: "same_shape g g'"
    by blast+
  from wf_set_resources[OF Cons.prems(1) g'] have wf': "wf_graph g'" .
  from Cons.prems(2) have hr: "\<forall>v\<in>set rest. has_node g' v"
    by (simp add: has_node_shape[OF sh])
  from Cons.prems(3) have dr: "distinct rest" and nu: "u \<notin> set rest" by simp_all
  from Cons.IH[OF wf' hr dr] obtain g1 where
    r: "redistribute g' share rest = Inr g1" and a1: "adj_dict g1 = adj_dict g'"
    and s1: "same_shape g' g1" and w1: "wf_graph g1"
    and res: "\<And>m r. get_resources g' m = Inr r \<Longrightarrow>
        get_resources g1 m = Inr (if m \<in> set rest then r + share else r)" by blast
  have "redistribute g share (u # rest) = Inr g1" by (simp add: cu g' r)
  moreover have "\<forall>m r. get_resources g m = Inr r \<longrightarrow>
        get_resources g1 m = Inr (if m \<in> set (u # rest) then r + share else r)"
  proof (intro allI impI)
    fix m r assume m: "get_resources g m = Inr r"
    show "get_resources g1 m = Inr (if m \<in> set (u # rest) then r + share else r)"
    proof (cases "m = u")
      case True
      with m cu have "r = cu" by simp
      moreover have "get_resources g' u = Inr (cu + share)"
        by (simp add: get_resources_set_resources[OF g'])
      ultimately show ?thesis using res[of u "cu + share"] nu True by simp
    next
      case False
      then have "get_resources g' m = Inr r"
        using m by (simp add: get_resources_set_resources[OF g'])
      from res[OF this] False show ?thesis by simp
    qed
  qed
  ultimately show ?case using a1 adj' s1 sh w1 by (auto intro: same_shape_trans)
qed

lemma heal_node_absent: "\<not> has_node g node \<Longrightarrow> heal_node (g, acts) node = Inr (g, acts)"
  by (simp add: heal_node_def)

lemma heal_node_present:
  assumes wf: "wf_graph g" and hn: "has_node g node"
  shows "\<exists>nbrs R g'. neighbors g node = Inr nbrs \<and> get_resources g node = Inr R \<and>
     heal_node (g, acts) node = Inr (g', acts @ [Removed node R]) \<and>
     wf_graph g' \<and> (\<forall>m. has_node g' m \<longleftrightarrow> has_node g m \<and> m \<noteq> node) \<and>
     (\<forall>u. adj_lookup (adj_dict g') node u = None \<and> adj_lookup (adj_dict g') u node = None) \<and>
     (\<forall>m r. m \<noteq> node \<longrightarrow> get_resources g m = Inr r \<longrightarrow>
        get_resources g' m = Inr (if m \<in> set nbrs then r + R / real (length nbrs) else r)) \<and>
     (nbrs = [] \<longrightarrow> node_dict g' = AList.delete node (node_dict g))"
proof -
  from neighbors_wf[OF wf hn] obtain nbrs where nb: "neighbors g node = Inr nbrs"
    and dn: "distinct nbrs" and hs: "\<forall>u\<in>set nbrs. has_node g u" by blast
  from hn have "node \<in> set (map fst (node_dict g))" by (simp add: has_node_def)
  from get_resources_Inr[OF this] obtain R where R: "get_resources g node = Inr R" ..
  let ?share = "R / real (length nbrs)"
  from redistribute_props[OF wf hs dn, of ?share] obtain g1 where
    rd: "redistribute g ?share nbrs = Inr g1" and s1: "same_shape g g1" and w1: "wf_graph g1"
    and res: "\<And>m r. get_resources g m = Inr r \<Longrightarrow>
        get_resources g1 m = Inr (if m \<in> set nbrs then r + ?share else r)" by blast
  have rd': "(if nbrs \<noteq> [] then redistribute g ?share nbrs else Inr g) = Inr g1"
    using rd by (cases nbrs) simp_all
  have e1: "nbrs = [] \<longrightarrow> g1 = g" using rd by (cases nbrs) simp_all
  from hn have hn1: "has_node g1 node" by (simp add: has_node_shape[OF s1])
  from remove_node_Inr[OF w1 hn1] obtain g' where rm: "remove_node g1 node = Inr g'" ..
  note p = remove_node_props[OF w1 rm]
  have h: "heal_node (g, acts) node = Inr (g', acts @ [Removed node R])"
    unfolding heal_node_def Let_def fst_conv snd_conv using hn
    by (simp add: nb R rd' rm)
  have hm: "\<forall>m. has_node g' m \<longleftrightarrow> has_node g m \<and> m \<noteq> node"
    unfolding has_node_def p(1) using s1
    by (auto simp: delete_keys same_shape_def)
  have ed: "\<forall>u. adj_lookup (adj_dict g') node u = None \<and> adj_lookup (adj_dict g') u node = None"
    by (simp add: remove_node_adj_lookup[OF w1 rm])
  have rs: "\<forall>m r. m \<noteq> node \<longrightarrow> get_resources g m = Inr r \<longrightarrow>
        get_resources g' m = Inr (if m \<in> set nbrs then r + ?share else r)"
    using res remove_node_get_resources[OF w1 rm] by simp
  from p(1) e1 have "nbrs = [] \<longrightarrow> node_dict g' = AList.delete node (node_dict g)" by simp
  with nb R h p(2) hm ed rs show ?thesis by blast
qed

lemma heal_nodes_props:
  assumes "wf_graph g"
  shows "\<exists>g' acts'. heal_nodes (g, acts) ns = Inr (g', acts') \<and> wf_graph g' \<and>
     (\<forall>m. has_node g' m \<longleftrightarrow> has_node g m \<and> m \<notin> set ns)"
  using assms
proof (induction ns arbitrary: g acts)
  case Nil
  then show ?case by simp
next
  case (Cons n ns)
  have "\<exists>g1 acts1. heal_node (g, acts) n = Inr (g1, acts1) \<and> wf_graph g1 \<and>
     (\<forall>m. has_node g1 m \<longleftrightarrow> has_node g m \<and> m \<noteq> n)"
  proof (cases "has_node g n")
    case True
    from heal_node_present[OF Cons.prems True, of acts] show ?thesis by blast
  next
    case False
    with heal_node_absent[OF False, of acts] Cons.prems show ?thesis by blast
  qed
  then obtain g1 acts1 where h: "heal_node (g, acts) n = Inr (g1, acts1)" and w: "wf_graph g1"
    and m1: "\<forall>m. has_node g1 m \<longleftrightarrow> has_node g m \<and> m \<noteq> n" by blast
  from Cons.IH[OF w, of acts1] obtain g' acts' where
    "heal_nodes (g1, acts1) ns = Inr (g', acts')" "wf_graph g'"
    "\<forall>m. has_node g' m \<longleftrightarrow> has_node g1 m \<and> m \<notin> set ns" by blast
  with h m1 show ?case by auto
qed

lemma add_missing_node_present [simp]: "has_node g u \<Longrightarrow> add_missing_node g u = g"
  by (simp add: add_missing_node_def)

lemma add_edge_present:
  assumes "has_node g u" "has_node g v"
  shows "add_edge g u v upd =
     g\<lparr>adj_dict := AList.map_entry v (AList.update u
            (upd (case adj_lookup (adj_dict g) u v of None \<Rightarrow> bare_edge | Some a \<Rightarrow> a)))
          (AList.map_entry u (AList.update v
            (upd (case adj_lookup (adj_dict g) u v of None \<Rightarrow> bare_edge | Some a \<Rightarrow> a)))
            (adj_dict g))\<rparr>"
  using assms by (simp add: add_edge_def Let_def)

lemma adj_lookup_add_entries:
  assumes u: "u \<in> fst ` set adj" and v: "v \<in> fst ` set adj"
  shows "adj_lookup (AList.map_entry v (AList.update u d) (AList.map_entry u (AList.update v d) adj)) a b =
     (if (a = u \<and> b = v) \<or> (a = v \<and> b = u) then Some d else adj_lookup adj a b)"
proof -
  from map_of_in_keys[OF u] obtain nu where nu: "map_of adj u = Some nu" ..
  from map_of_in_keys[OF v] obtain nv where nv: "map_of adj v = Some nv" ..
  let ?adj1 = "AList.map_entry u (AList.update v d) adj"
  have m1: "map_of ?adj1 w = (if w = u then Some (AList.update v d nu) else map_of adj w)" for w
    by (simp add: map_of_map_entry nu)
  have m2: "map_of (AList.map_entry v (AList.update u d) ?adj1) w =
     (if w = v then map_option (AList.update u d) (map_of ?adj1 v) else map_of ?adj1 w)" for w
    by (cases "map_of ?adj1 v") (simp_all add: map_of_map_entry)
  show ?thesis
  proof (cases "u = v")
    case True
    have "adj_lookup (AList.map_entry v (AList.update u d) ?adj1) a b =
       (if (a = u \<and> b = v) \<or> (a = v \<and> b = u) then Some d else adj_lookup adj a b)"
      unfolding adj_lookup_def m2 m1
      using True nu by (auto simp: update_conv')
    then show ?thesis .
  next
    case False
    show ?thesis unfolding adj_lookup_def m2 m1
      using False by (auto simp: update_conv' nu nv)
  qed
qed

lemma add_edge_props:
  assumes wf: "wf_graph g" and hu: "has_node g u" and hv: "has_node g v"
  shows "node_dict (add_edge g u v upd) = node_dict g"
    and "adj_lookup (adj_dict (add_edge g u v upd)) a b =
      (if (a = u \<and> b = v) \<or> (a = v \<and> b = u)
       then Some (upd (case adj_lookup (adj_dict g) u v of None \<Rightarrow> bare_edge | Some a \<Rightarrow> a))
       else adj_lookup (adj_dict g) a b)"
    and "wf_graph (add_edge g u v upd)"
proof -
  let ?d = "upd (case adj_lookup (adj_dict g) u v of None \<Rightarrow> bare_edge | Some a \<Rightarrow> a)"
  let ?g = "add_edge g u v upd"
  note e = add_edge_present[OF hu hv, of upd]
  from wf have k: "map fst (adj_dict g) = map fst (node_dict g)" by (simp add: wf_graph_def)
  from hu hv have ku: "u \<in> fst ` set (adj_dict g)" and kv: "v \<in> fst ` set (adj_dict g)"
    unfolding has_node_def k[symmetric] by simp_all
  show nd: "node_dict ?g = node_dict g" by (simp add: e)
  show al: "adj_lookup (adj_dict ?g) a b =
      (if (a = u \<and> b = v) \<or> (a = v \<and> b = u) then Some ?d else adj_lookup (adj_dict g) a b)"
    for a b
    unfolding e by (simp add: adj_lookup_add_entries[OF ku kv])
  have mf: "map fst (adj_dict ?g) = map fst (adj_dict g)" by (simp add: e)
  from wf have dn: "\<And>w nb. map_of (adj_dict g) w = Some nb \<Longrightarrow> distinct (map fst nb)"
    unfolding wf_graph_iff by blast
  have 3: "\<forall>w nb. map_of (adj_dict ?g) w = Some nb \<longrightarrow> distinct (map fst nb)"
  proof (intro allI impI)
    fix w nb assume a: "map_of (adj_dict ?g) w = Some nb"
    let ?adj1 = "AList.map_entry u (AList.update v ?d) (adj_dict g)"
    have d1: "distinct (map fst nb1)" if "map_of ?adj1 w1 = Some nb1" for w1 nb1
      using that dn
      by (cases "map_of (adj_dict g) w1") (auto simp: map_of_map_entry distinct_update split: if_splits)
    from a have "map_of (AList.map_entry v (AList.update u ?d) ?adj1) w = Some nb"
      by (simp add: e)
    then show "distinct (map fst nb)"
      using d1
      by (cases "map_of ?adj1 w") (auto simp: map_of_map_entry[of v] distinct_update split: if_splits)
  qed
  have 4: "\<forall>a b x. adj_lookup (adj_dict ?g) a b = Some x \<longrightarrow> adj_lookup (adj_dict ?g) b a = Some x"
  proof (intro allI impI)
    fix a b x assume h: "adj_lookup (adj_dict ?g) a b = Some x"
    show "adj_lookup (adj_dict ?g) b a = Some x"
    proof (cases "(a = u \<and> b = v) \<or> (a = v \<and> b = u)")
      case True
      then have "(b = u \<and> a = v) \<or> (b = v \<and> a = u)" by blast
      with h True show ?thesis unfolding al by (simp only: if_True)
    next
      case False
      then have f: "\<not> ((b = u \<and> a = v) \<or> (b = v \<and> a = u))" by blast
      from h False have "adj_lookup (adj_dict g) a b = Some x" unfolding al by (simp only: if_False)
      from wf_adj_sym[OF wf this] f show ?thesis unfolding al by (simp only: if_False)
    qed
  qed
  from wf have "distinct (map fst (node_dict g))" by (simp add: wf_graph_def)
  with 3 4 show "wf_graph ?g" unfolding wf_graph_iff nd mf k by blast
qed

lemma adjacent_sym:
  assumes "wf_graph g" "adjacent g u v"
  shows "adjacent g v u"
proof -
  from assms(2) obtain a where "adj_lookup (adj_dict g) u v = Some a"
    unfolding adjacent_def by blast
  from wf_adj_sym[OF assms(1) this] show ?thesis by (simp add: adjacent_def)
qed

lemma joined_refl [simp]: "joined g u u"
  by (simp add: joined_def)

lemma joined_trans: "joined g u v \<Longrightarrow> joined g v w \<Longrightarrow> joined g u w"
  unfolding joined_def by (rule rtranclp_trans)

lemma adjacent_joined: "adjacent g u v \<Longrightarrow> joined g u v"
  unfolding joined_def by (rule r_into_rtranclp)

lemma joined_sym:
  assumes wf: "wf_graph g" and c: "joined g u v"
  shows "joined g v u"
  using c unfolding joined_def
proof (induction rule: rtranclp_induct)
  case base
  then show ?case by simp
next
  case (step y z)
  from adjacent_sym[OF wf step.hyps(2)] have "(adjacent g)\<^sup>*\<^sup>* z y" by (rule r_into_rtranclp)
  with step.IH show ?case by (rule rtranclp_trans[rotated])
qed

lemma adjacent_has_node:
  assumes "wf_graph g" "adjacent g u v"
  shows "has_node g u" "has_node g v"
proof -
  from assms(2) obtain a where "adj_lookup (adj_dict g) u v = Some a"
    unfolding adjacent_def by blast
  from wf_edge_ok[OF assms(1) this] show "has_node g u" "has_node g v"
    by (simp_all add: edge_ok_def has_node_def)
qed

lemma joined_has_node:
  assumes wf: "wf_graph g" and h: "has_node g u" and c: "joined g u v"
  shows "has_node g v"
  using c unfolding joined_def
proof (induction rule: rtranclp_induct)
  case base
  then show ?case by (rule h)
next
  case (step y z)
  from adjacent_has_node(2)[OF wf step.hyps(2)] show ?case .
qed

lemma joined_mono:
  assumes "\<And>a b. adjacent g a b \<Longrightarrow> adjacent g' a b" and "joined g u v"
  shows "joined g' u v"
  using assms(2) unfolding joined_def
proof (induction rule: rtranclp_induct)
  case base
  then show ?case by simp
next
  case (step y z)
  from assms(1)[OF step.hyps(2)] step.IH show ?case by (rule rtranclp.rtrancl_into_rtrancl[rotated])
qed

lemma nbrs_of_adjacent:
  assumes "x \<in> set (nbrs_of (adj_dict g) y)"
  shows "adjacent g y x"
proof -
  from assms obtain nb where nb: "map_of (adj_dict g) y = Some nb" and x: "x \<in> fst ` set nb"
    by (cases "map_of (adj_dict g) y") (auto simp: nbrs_of_def)
  from map_of_in_keys[OF x] obtain a where "map_of nb x = Some a" ..
  with nb show ?thesis by (simp add: adjacent_def adj_lookup_def)
qed

lemma bfs_closure_mono: "set found \<subseteq> set (bfs_closure adj n found)"
proof (induction n arbitrary: found)
  case 0
  then show ?case by simp
next
  case (Suc n)
  have "set found \<subseteq> set (remdups (found @ concat (map (nbrs_of adj) found)))" by simp
  also have "\<dots> \<subseteq> set (bfs_closure adj (Suc n) found)"
    using Suc.IH[of "remdups (found @ concat (map (nbrs_of adj) found))"] by simp
  finally show ?case .
qed

lemma bfs_closure_sound:
  assumes "x \<in> set (bfs_closure (adj_dict g) n found)"
  shows "\<exists>y\<in>set found. joined g y x"
  using assms
proof (induction n arbitrary: found)
  case 0
  then have "x \<in> set found" by simp
  moreover have "joined g x x" by simp
  ultimately show ?case by blast
next
  case (Suc n)
  let ?f = "remdups (found @ concat (map (nbrs_of (adj_dict g)) found))"
  from Suc.prems have "x \<in> set (bfs_closure (adj_dict g) n ?f)" by simp
  from Suc.IH[OF this] obtain y where y: "y \<in> set ?f" and c: "joined g y x" by blast
  from y consider (old) "y \<in> set found"
    | (new) z where "z \<in> set found" "y \<in> set (nbrs_of (adj_dict g) z)"
    by auto
  then show ?case
  proof cases
    case old
    with c show ?thesis by blast
  next
    case new
    from adjacent_joined[OF nbrs_of_adjacent[OF new(2)]] c have "joined g z x"
      by (rule joined_trans)
    with new(1) show ?thesis by blast
  qed
qed

lemma plain_bfs_self: "v \<in> set (plain_bfs g v)"
proof -
  have "set [v] \<subseteq> set (bfs_closure (adj_dict g) (length (node_dict g)) [v])"
    by (rule bfs_closure_mono)
  then show ?thesis by (simp add: plain_bfs_def)
qed

lemma plain_bfs_joined:
  assumes "x \<in> set (plain_bfs g v)"
  shows "joined g v x"
proof -
  from assms have "x \<in> set (bfs_closure (adj_dict g) (length (node_dict g)) [v])"
    by (simp add: plain_bfs_def)
  from bfs_closure_sound[OF this] obtain y where "y \<in> set [v]" "joined g y x" by blast
  then show ?thesis by simp
qed

lemma plain_bfs_component_ok:
  assumes wf: "wf_graph g" and h: "has_node g v"
  shows "component_ok g (plain_bfs g v)"
proof -
  have 1: "plain_bfs g v \<noteq> []" using plain_bfs_self[of v g] by (cases "plain_bfs g v") simp_all
  have 2: "\<forall>x\<in>set (plain_bfs g v). has_node g x"
  proof
    fix x assume "x \<in> set (plain_bfs g v)"
    from joined_has_node[OF wf h plain_bfs_joined[OF this]] show "has_node g x" .
  qed
  have 3: "\<forall>x\<in>set (plain_bfs g v). \<forall>y\<in>set (plain_bfs g v). joined g x y"
  proof (intro ballI)
    fix x y assume "x \<in> set (plain_bfs g v)" "y \<in> set (plain_bfs g v)"
    then have "joined g v x" "joined g v y" by (simp_all add: plain_bfs_joined)
    from joined_sym[OF wf this(1)] this(2) show "joined g x y" by (rule joined_trans)
  qed
  from 1 2 3 show ?thesis by (simp add: component_ok_def)
qed

lemma components_from_props:
  assumes wf: "wf_graph g" and "\<forall>v\<in>set vs. has_node g v"
  shows "(\<forall>c\<in>set (components_from g seen vs). component_ok g c) \<and>
     (\<forall>v\<in>set vs. v \<in> set seen \<or> (\<exists>c\<in>set (components_from g seen vs). v \<in> set c))"
  using assms(2)
proof (induction vs arbitrary: seen)
  case Nil
  then show ?case by simp
next
  case (Cons v vs)
  from Cons.prems have hv: "has_node g v" and hs: "\<forall>v\<in>set vs. has_node g v" by simp_all
  show ?case
  proof (cases "v \<in> set seen")
    case True
    with Cons.IH[OF hs, of seen] show ?thesis by simp
  next
    case False
    let ?c = "plain_bfs g v"
    from Cons.IH[OF hs, of "seen @ ?c"]
    have a: "\<forall>c\<in>set (components_from g (seen @ ?c) vs). component_ok g c"
      and b: "\<forall>w\<in>set vs. w \<in> set (seen @ ?c) \<or>
         (\<exists>c\<in>set (components_from g (seen @ ?c) vs). w \<in> set c)" by blast+
    have e: "components_from g seen (v # vs) = ?c # components_from g (seen @ ?c) vs"
      using False by simp
    have 1: "\<forall>c\<in>set (components_from g seen (v # vs)). component_ok g c"
      unfolding e using a plain_bfs_component_ok[OF wf hv] by simp
    have 2: "\<forall>w\<in>set (v # vs). w \<in> set seen \<or>
       (\<exists>c\<in>set (components_from g seen (v # vs)). w \<in> set c)"
    proof
      fix w assume "w \<in> set (v # vs)"
      then consider "w = v" | "w \<in> set vs" by auto
      then show "w \<in> set seen \<or> (\<exists>c\<in>set (components_from g seen (v # vs)). w \<in> set c)"
      proof cases
        case 1
        then show ?thesis unfolding e using plain_bfs_self[of v g] by auto
      next
        case 2
        with b show ?thesis unfolding e by auto
      qed
    qed
    from 1 2 show ?thesis by blast
  qed
qed

lemma connected_components_props:
  assumes wf: "wf_graph g"
  shows "\<forall>c\<in>set (connected_components g). component_ok g c"
    and "has_node g n \<Longrightarrow> \<exists>c\<in>set (connected_components g). n \<in> set c"
proof -
  have h: "\<forall>v\<in>set (map fst (node_dict g)). has_node g v" by (simp add: has_node_def)
  from components_from_props[OF wf h, of "[]"]
  show "\<forall>c\<in>set (connected_components g). component_ok g c"
    and "has_node g n \<Longrightarrow> \<exists>c\<in>set (connected_components g). n \<in> set c"
    unfolding connected_components_def has_node_def by auto
qed

lemma random_choice_Inr:
  assumes "xs \<noteq> []"
  shows "\<exists>x r'. random_choice r xs = Inr (x, r') \<and> x \<in> set xs"
proof -
  from assms have "picks r (picks_used r) mod length xs < length xs" by simp
  then have "xs ! (picks r (picks_used r) mod length xs) \<in> set xs" by (rule nth_mem)
  with assms show ?thesis by (simp add: random_choice_def)
qed

lemma healing_attrs_edge [simp]: "healing_edge hf (healing_attrs hf a)"
  by (simp add: healing_edge_def healing_attrs_def)

lemma add_edge_adjacent:
  assumes wf: "wf_graph g" and hu: "has_node g u" and hv: "has_node g v"
  shows "adjacent (add_edge g u v upd) u v"
    and "adjacent g a b \<Longrightarrow> adjacent (add_edge g u v upd) a b"
  unfolding adjacent_def add_edge_props(2)[OF wf hu hv] by simp_all

lemma component_ok_mono:
  assumes "component_ok g c" "node_dict g' = node_dict g"
    and "\<And>a b. adjacent g a b \<Longrightarrow> adjacent g' a b"
  shows "component_ok g' c"
proof -
  from assms(1) have 1: "c \<noteq> []" and 2: "\<forall>x\<in>set c. has_node g x"
    and 3: "\<forall>x\<in>set c. \<forall>y\<in>set c. joined g x y"
    unfolding component_ok_def by blast+
  from 2 assms(2) have b2: "\<forall>x\<in>set c. has_node g' x" by (simp add: has_node_def)
  have b3: "\<forall>x\<in>set c. \<forall>y\<in>set c. joined g' x y"
  proof (intro ballI)
    fix x y assume "x \<in> set c" "y \<in> set c"
    with 3 have "joined g x y" by blast
    with assms(3) show "joined g' x y" by (rule joined_mono)
  qed
  from 1 b2 b3 show ?thesis unfolding component_ok_def by blast
qed

lemma connect_components_props:
  assumes "wf_graph g" "\<forall>c\<in>set cs. component_ok g c"
  shows "\<exists>g' r' acts'. connect_components g r hf acts cs = Inr (g', r', acts') \<and>
     wf_graph g' \<and> node_dict g' = node_dict g \<and>
     (\<forall>a b. adjacent g a b \<longrightarrow> adjacent g' a b) \<and>
     (\<forall>a b. (\<exists>e. adj_lookup (adj_dict g) a b = Some e \<and> healing_edge hf e) \<longrightarrow>
        (\<exists>e. adj_lookup (adj_dict g') a b = Some e \<and> healing_edge hf e)) \<and>
     (\<forall>c1\<in>set cs. \<forall>c2\<in>set cs. \<forall>x\<in>set c1. \<forall>y\<in>set c2. joined g' x y) \<and>
     length acts' = length acts + (length cs - 1) \<and>
     take (length acts) acts' = acts \<and>
     (\<forall>a b. Created a b \<in> set acts' \<longrightarrow> Created a b \<in> set acts \<or>
        (\<exists>e. adj_lookup (adj_dict g') a b = Some e \<and> healing_edge hf e))"
  using assms
proof (induction cs arbitrary: g r acts)
  case Nil
  then show ?case by simp
next
  case (Cons c1 rest)
  from Cons.prems(2) have ok1: "component_ok g c1" by simp
  show ?case
  proof (cases rest)
    case Nil
    from ok1 have "\<forall>x\<in>set c1. \<forall>y\<in>set c1. joined g x y" unfolding component_ok_def by blast
    with Nil Cons.prems(1) show ?thesis by simp
  next
    case (Cons c2 cs')
    from Cons.prems(2) Cons have ok2: "component_ok g c2" by simp
    from ok1 ok2 have ne1: "c1 \<noteq> []" and ne2: "c2 \<noteq> []" unfolding component_ok_def by blast+
    from random_choice_Inr[OF ne1, of r] obtain n1 r1 where
      ch1: "random_choice r c1 = Inr (n1, r1)" and m1: "n1 \<in> set c1" by blast
    from random_choice_Inr[OF ne2, of r1] obtain n2 r2 where
      ch2: "random_choice r1 c2 = Inr (n2, r2)" and m2: "n2 \<in> set c2" by blast
    from ok1 m1 have h1: "has_node g n1" unfolding component_ok_def by blast
    from ok2 m2 have h2: "has_node g n2" unfolding component_ok_def by blast
    let ?g1 = "add_edge g n1 n2 (healing_attrs hf)"
    let ?acts1 = "acts @ [Created n1 n2]"
    note wf = Cons.prems(1)
    note p = add_edge_props[where upd = "healing_attrs hf", OF wf h1 h2]
    note ad = add_edge_adjacent[where upd = "healing_attrs hf", OF wf h1 h2]
    have oks: "\<forall>c\<in>set rest. component_ok ?g1 c"
    proof
      fix c assume "c \<in> set rest"
      with Cons.prems(2) have "component_ok g c" by simp
      then show "component_ok ?g1 c" using p(1) ad(2) by (rule component_ok_mono)
    qed
    from Cons.IH[OF p(3) oks, of r2 ?acts1] obtain g' r' acts' where
      cc: "connect_components ?g1 r2 hf ?acts1 rest = Inr (g', r', acts')"
      and wf': "wf_graph g'" and nd: "node_dict g' = node_dict ?g1"
      and mono: "\<And>a b. adjacent ?g1 a b \<Longrightarrow> adjacent g' a b"
      and heal: "\<And>a b. (\<exists>e. adj_lookup (adj_dict ?g1) a b = Some e \<and> healing_edge hf e) \<Longrightarrow>
        (\<exists>e. adj_lookup (adj_dict g') a b = Some e \<and> healing_edge hf e)"
      and jn: "\<forall>c1\<in>set rest. \<forall>c2\<in>set rest. \<forall>x\<in>set c1. \<forall>y\<in>set c2. joined g' x y"
      and len: "length acts' = length ?acts1 + (length rest - 1)"
      and tk: "take (length ?acts1) acts' = ?acts1"
      and cr: "\<forall>a b. Created a b \<in> set acts' \<longrightarrow> Created a b \<in> set ?acts1 \<or>
        (\<exists>e. adj_lookup (adj_dict g') a b = Some e \<and> healing_edge hf e)"
      by blast
    have run: "connect_components g r hf acts (c1 # rest) = Inr (g', r', acts')"
      unfolding Cons using cc[unfolded Cons] by (simp add: ch1 ch2)
    have mono0: "adjacent g' a b" if "adjacent g a b" for a b
      using mono[OF ad(2)[OF that]] .
    have new: "\<exists>e. adj_lookup (adj_dict ?g1) n1 n2 = Some e \<and> healing_edge hf e"
      unfolding p(2) by simp
    have heal0: "\<exists>e. adj_lookup (adj_dict g') a b = Some e \<and> healing_edge hf e"
      if "\<exists>e. adj_lookup (adj_dict g) a b = Some e \<and> healing_edge hf e" for a b
    proof (rule heal)
      from that obtain e where e: "adj_lookup (adj_dict g) a b = Some e" "healing_edge hf e"
        by blast
      show "\<exists>e. adj_lookup (adj_dict ?g1) a b = Some e \<and> healing_edge hf e"
      proof (cases "(a = n1 \<and> b = n2) \<or> (a = n2 \<and> b = n1)")
        case True
        then show ?thesis unfolding p(2) by simp
      next
        case False
        with e show ?thesis unfolding p(2) by simp
      qed
    qed
    have j12: "joined g' n1 n2" using mono[OF ad(1)] by (rule adjacent_joined)
    have j1: "joined g' x y" if "x \<in> set c1" "y \<in> set c1" for x y
    proof -
      from ok1 that have "joined g x y" unfolding component_ok_def by blast
      with mono0 show ?thesis by (rule joined_mono)
    qed
    have j1r: "joined g' x y" if "x \<in> set c1" "c \<in> set rest" "y \<in> set c" for x y c
    proof -
      have "c2 \<in> set rest" using Cons by simp
      with jn m2 that have "joined g' n2 y" by blast
      with j1[OF that(1) m1] j12 show ?thesis by (blast intro: joined_trans)
    qed
    have jall: "\<forall>d1\<in>set (c1 # rest). \<forall>d2\<in>set (c1 # rest). \<forall>x\<in>set d1. \<forall>y\<in>set d2. joined g' x y"
    proof (intro ballI)
      fix d1 d2 x y
      assume d: "d1 \<in> set (c1 # rest)" "d2 \<in> set (c1 # rest)" and x: "x \<in> set d1" and y: "y \<in> set d2"
      from d(1) d(2) consider (a) "d1 = c1" "d2 = c1" | (b) "d1 = c1" "d2 \<in> set rest"
        | (c) "d1 \<in> set rest" "d2 = c1" | (d) "d1 \<in> set rest" "d2 \<in> set rest" by auto
      then show "joined g' x y"
      proof cases
        case a with x y j1 show ?thesis by blast
      next
        case b with x y j1r show ?thesis by blast
      next
        case c
        with x y j1r have "joined g' y x" by blast
        then show ?thesis by (rule joined_sym[OF wf'])
      next
        case d with x y jn show ?thesis by blast
      qed
    qed
    have len0: "length acts' = length acts + (length (c1 # rest) - 1)"
      using len Cons by simp
    have tk0: "take (length acts) acts' = acts"
    proof -
      have "take (length acts) acts' = take (length acts) (take (length ?acts1) acts')"
        by (simp add: min_def)
      also have "\<dots> = acts" unfolding tk by simp
      finally show ?thesis .
    qed
    have cr0: "\<forall>a b. Created a b \<in> set acts' \<longrightarrow> Created a b \<in> set acts \<or>
        (\<exists>e. adj_lookup (adj_dict g') a b = Some e \<and> healing_edge hf e)"
    proof (intro allI impI)
      fix a b assume "Created a b \<in> set acts'"
      with cr consider "Created a b \<in> set acts" | "a = n1" "b = n2"
        | "\<exists>e. adj_lookup (adj_dict g') a b = Some e \<and> healing_edge hf e" by auto
      then show "Created a b \<in> set acts \<or>
        (\<exists>e. adj_lookup (adj_dict g') a b = Some e \<and> healing_edge hf e)"
      proof cases
        case 1 then show ?thesis by blast
      next
        case 2 with heal[OF new] show ?thesis by blast
      next
        case 3 then show ?thesis by blast
      qed
    qed
    from run wf' nd p(1) mono0 heal0 jall len0 tk0 cr0 show ?thesis by auto
  qed
qed

lemma sum_list_delete:
  assumes "distinct (map fst xs)" "map_of xs k = Some a"
  shows "sum_list (map f (AList.delete k xs)) = sum_list (map f xs) - (f (k, a) :: real)"
  using assms
proof (induction xs)
  case Nil
  then show ?case by simp
next
  case (Cons x xs)
  show ?case
  proof (cases "fst x = k")
    case True
    with Cons.prems have "x = (k, a)" "k \<notin> fst ` set xs" by (cases x; simp)+
    then show ?thesis by simp
  next
    case False
    with Cons.prems have "distinct (map fst xs)" "map_of xs k = Some a" by (cases x; simp)+
    from Cons.IH[OF this] False show ?thesis by simp
  qed
qed

lemma total_resources_delete:
  assumes "wf_graph g" "get_resources g n = Inr R" "node_dict g' = AList.delete n (node_dict g)"
  shows "total_resources g' = total_resources g - R"
proof -
  from assms(2) obtain a where a: "map_of (node_dict g) n = Some a"
    and R: "R = (case resources a of None \<Rightarrow> 0 | Some x \<Rightarrow> x)"
    by (auto simp: get_resources_def split: option.splits)
  from assms(1) have d: "distinct (map fst (node_dict g))" by (simp add: wf_graph_def)
  show ?thesis
    unfolding total_resources_def assms(3)
    by (simp add: sum_list_delete[OF d a] R)
qed

lemma heal_node_only_removes:
  assumes "heal_node (g, acts) n = Inr (g', acts')"
  shows "\<forall>a b. Created a b \<in> set acts' \<longrightarrow> Created a b \<in> set acts"
proof (cases "has_node g n")
  case True
  with assms obtain R where "acts' = acts @ [Removed n R]"
    unfolding heal_node_def Let_def fst_conv snd_conv
    by (auto simp: bind_err_eq_Inr)
  then show ?thesis by simp
next
  case False
  with assms show ?thesis by (simp add: heal_node_def)
qed

lemma heal_nodes_only_removes:
  assumes "heal_nodes (g, acts) ns = Inr (g', acts')"
  shows "\<forall>a b. Created a b \<in> set acts' \<longrightarrow> Created a b \<in> set acts"
  using assms
proof (induction ns arbitrary: g acts)
  case Nil
  then show ?case by simp
next
  case (Cons n ns)
  from Cons.prems obtain g1 acts1 where h: "heal_node (g, acts) n = Inr (g1, acts1)"
    and r: "heal_nodes (g1, acts1) ns = Inr (g', acts')"
    by (auto simp: bind_err_eq_Inr)
  from Cons.IH[OF r] heal_node_only_removes[OF h] show ?case by blast
qed

lemma self_healing_props:
  assumes wf: "wf_graph g"
  shows "\<exists>g1 acts1 g' r' acts'.
     heal_nodes (g, []) damaged_nodes = Inr (g1, acts1) \<and>
     self_healing_response g damaged_nodes hf r = Inr (g', r', acts') \<and>
     wf_graph g1 \<and> wf_graph g' \<and> node_dict g' = node_dict g1 \<and>
     (\<forall>m. has_node g1 m \<longleftrightarrow> has_node g m \<and> m \<notin> set damaged_nodes) \<and>
     (\<forall>u v. has_node g' u \<and> has_node g' v \<longrightarrow> joined g' u v) \<and>
     length acts' = length acts1 + (length (connected_components g1) - 1) \<and>
     take (length acts1) acts' = acts1 \<and>
     (\<forall>a b. Created a b \<in> set acts' \<longrightarrow>
        (\<exists>e. adj_lookup (adj_dict g') a b = Some e \<and> healing_edge hf e))"
proof -
  from heal_nodes_props[OF wf, of "[]" damaged_nodes] obtain g1 acts1 where
    hn: "heal_nodes (g, []) damaged_nodes = Inr (g1, acts1)" and wf1: "wf_graph g1"
    and hm: "\<forall>m. has_node g1 m \<longleftrightarrow> has_node g m \<and> m \<notin> set damaged_nodes" by blast
  from heal_nodes_only_removes[OF hn] have nocr: "\<And>a b. Created a b \<notin> set acts1" by auto
  let ?cs = "connected_components g1"
  note cp = connected_components_props[OF wf1]
  from connect_components_props[OF wf1 cp(1), of r hf acts1] obtain g' r' acts' where
    cc: "connect_components g1 r hf acts1 ?cs = Inr (g', r', acts')"
    and wf': "wf_graph g'" and nd: "node_dict g' = node_dict g1"
    and jn: "\<forall>c1\<in>set ?cs. \<forall>c2\<in>set ?cs. \<forall>x\<in>set c1. \<forall>y\<in>set c2. joined g' x y"
    and len: "length acts' = length acts1 + (length ?cs - 1)"
    and tk: "take (length acts1) acts' = acts1"
    and cr: "\<forall>a b. Created a b \<in> set acts' \<longrightarrow> Created a b \<in> set acts1 \<or>
        (\<exists>e. adj_lookup (adj_dict g') a b = Some e \<and> healing_edge hf e)"
    by blast
  have small: "connect_components g1 r hf acts1 ?cs = Inr (g1, r, acts1)" if "\<not> length ?cs > 1"
  proof (cases ?cs)
    case Nil
    then show ?thesis by simp
  next
    case (Cons c cs)
    with that have "cs = []" by simp
    with Cons show ?thesis by simp
  qed
  have run: "self_healing_response g damaged_nodes hf r = Inr (g', r', acts')"
  proof (cases "length ?cs > 1")
    case True
    then show ?thesis unfolding self_healing_response_def Let_def hn using cc by simp
  next
    case False
    from small[OF False] cc have "g' = g1" "r' = r" "acts' = acts1" by simp_all
    with False show ?thesis unfolding self_healing_response_def Let_def hn by simp
  qed
  have all: "\<forall>u v. has_node g' u \<and> has_node g' v \<longrightarrow> joined g' u v"
  proof (intro allI impI)
    fix u v assume "has_node g' u \<and> has_node g' v"
    then have "has_node g1 u" "has_node g1 v" by (simp_all add: has_node_def nd)
    from cp(2)[OF this(1)] cp(2)[OF this(2)] jn show "joined g' u v" by blast
  qed
  from cr nocr have cr': "\<forall>a b. Created a b \<in> set acts' \<longrightarrow>
        (\<exists>e. adj_lookup (adj_dict g') a b = Some e \<and> healing_edge hf e)" by blast
  from hn run wf1 wf' nd hm all len tk cr' show ?thesis by blast
qed

subsection \<open>The removal of damaged nodes against its specification\<close>

lemma update_as_map:
  assumes "k \<in> fst ` set xs" "distinct (map fst xs)"
  shows "AList.update k v xs = map (\<lambda>p. if fst p = k then (k, v) else p) xs"
  using assms
proof (induction xs)
  case Nil
  then show ?case by simp
next
  case (Cons p ps)
  show ?case
  proof (cases "fst p = k")
    case True
    with Cons.prems(2) have "k \<notin> fst ` set ps" by auto
    then have "map (\<lambda>p. if fst p = k then (k, v) else p) ps = ps"
      by (intro map_idI) auto
    with True show ?thesis by simp
  next
    case False
    with Cons show ?thesis by auto
  qed
qed

lemma map_entry_as_map:
  assumes "distinct (map fst xs)"
  shows "AList.map_entry k f xs = map (\<lambda>p. if fst p = k then (k, f (snd p)) else p) xs"
  using assms
proof (induction xs)
  case Nil
  then show ?case by simp
next
  case (Cons p ps)
  show ?case
  proof (cases "fst p = k")
    case True
    with Cons.prems have "k \<notin> fst ` set ps" by auto
    then have "map (\<lambda>p. if fst p = k then (k, f (snd p)) else p) ps = ps"
      by (intro map_idI) auto
    with True show ?thesis by (cases p) simp
  next
    case False
    with Cons show ?thesis by (cases p) auto
  qed
qed

lemma fold_map_entry_as_map:
  assumes "distinct (map fst xs)" "\<And>x. f (f x) = f x"
  shows "fold (\<lambda>u. AList.map_entry u f) us xs =
     map (\<lambda>p. if fst p \<in> set us then (fst p, f (snd p)) else p) xs"
  using assms(1)
proof (induction us arbitrary: xs)
  case Nil
  then show ?case by simp
next
  case (Cons u us)
  have d: "distinct (map fst (AList.map_entry u f xs))" using Cons.prems by (simp add: distinct_map_entry)
  have "fold (\<lambda>u. AList.map_entry u f) (u # us) xs =
     map (\<lambda>p. if fst p \<in> set us then (fst p, f (snd p)) else p)
       (map (\<lambda>p. if fst p = u then (u, f (snd p)) else p) xs)"
    using Cons.IH[OF d] map_entry_as_map[OF Cons.prems, of u f] by simp
  also have "\<dots> = map (\<lambda>p. if fst p \<in> set (u # us) then (fst p, f (snd p)) else p) xs"
    by (auto simp: assms(2))
  finally show ?case .
qed

lemma fst_add_share [simp]: "fst (add_share nbrs share p) = fst p"
  by (simp add: add_share_def)

lemma fst_comp_add_share [simp]: "fst \<circ> add_share nbrs share = fst"
  by (rule ext) simp

lemma image_fst_add_share [simp]: "fst ` add_share nbrs share ` A = fst ` A"
  by (simp add: image_comp)

lemma add_share_Nil [simp]: "add_share [] share p = p"
  by (simp add: add_share_def)

lemma redistribute_as_map:
  assumes "distinct (map fst (node_dict g))" "\<forall>u\<in>set nbrs. has_node g u" "distinct nbrs"
  shows "redistribute g share nbrs = Inr (g\<lparr>node_dict := map (add_share nbrs share) (node_dict g)\<rparr>)"
  using assms
proof (induction nbrs arbitrary: g)
  case Nil
  then show ?case by (simp add: map_idI)
next
  case (Cons u rest)
  from Cons.prems(2) have hu: "u \<in> fst ` set (node_dict g)" by (simp add: has_node_def)
  then obtain a where a: "map_of (node_dict g) u = Some a"
    using map_of_in_keys[of u "node_dict g"] by auto
  define v where "v = (case resources a of None \<Rightarrow> 0 | Some x \<Rightarrow> x)"
  have cu: "get_resources g u = Inr v" by (simp add: get_resources_def a v_def)
  have upd: "AList.update u (a\<lparr>resources := Some (v + share)\<rparr>) (node_dict g) =
     map (add_share [u] share) (node_dict g)"
  proof -
    have "AList.update u (a\<lparr>resources := Some (v + share)\<rparr>) (node_dict g) =
      map (\<lambda>p. if fst p = u then (u, a\<lparr>resources := Some (v + share)\<rparr>) else p) (node_dict g)"
      by (rule update_as_map[OF hu Cons.prems(1)])
    also have "\<dots> = map (add_share [u] share) (node_dict g)"
    proof (rule map_cong[OF refl])
      fix p assume p: "p \<in> set (node_dict g)"
      show "(if fst p = u then (u, a\<lparr>resources := Some (v + share)\<rparr>) else p) = add_share [u] share p"
      proof (cases "fst p = u")
        case True
        then have "p = (u, snd p)" by (cases p) simp
        with p have "(u, snd p) \<in> set (node_dict g)" by simp
        with Cons.prems(1) a have "snd p = a" by simp
        with True show ?thesis by (simp add: add_share_def v_def)
      next
        case False
        then show ?thesis by (simp add: add_share_def)
      qed
    qed
    finally show ?thesis .
  qed
  define g' where "g' = g\<lparr>node_dict := map (add_share [u] share) (node_dict g)\<rparr>"
  have sr: "set_resources g u (v + share) = Inr g'"
    by (simp add: set_resources_def a upd g'_def)
  have d': "distinct (map fst (node_dict g'))" using Cons.prems(1) by (simp add: g'_def)
  have h': "\<forall>w\<in>set rest. has_node g' w" using Cons.prems(2) by (simp add: has_node_def g'_def)
  from Cons.prems(3) have dr: "distinct rest" and nu: "u \<notin> set rest" by simp_all
  have comp: "add_share rest share \<circ> add_share [u] share = add_share (u # rest) share"
    using nu by (auto simp: add_share_def fun_eq_iff)
  from Cons.IH[OF d' h' dr]
  have "redistribute g' share rest = Inr (g\<lparr>node_dict := map (add_share (u # rest) share) (node_dict g)\<rparr>)"
    by (simp add: g'_def comp)
  then show ?case by (simp add: cu sr)
qed

lemma delete_as_filter: "AList.delete n xs = filter (\<lambda>(m, a). m \<noteq> n) xs"
  by (induction xs) auto

lemma remove_node_as_filter:
  assumes wf: "wf_graph g" and hn: "has_node g n"
  shows "remove_node g n =
     Inr \<lparr>node_dict = filter (\<lambda>(m, a). m \<noteq> n) (node_dict g),
          adj_dict = map (\<lambda>(m, ns). (m, filter (\<lambda>(v, e). v \<noteq> n) ns))
                       (filter (\<lambda>(m, ns). m \<noteq> n) (adj_dict g))\<rparr>"
proof -
  from hn has_node_adj_key[OF wf] obtain nbrs where nb: "map_of (adj_dict g) n = Some nbrs" by blast
  have d: "distinct (map fst (adj_dict g))" by (rule wf_adj_distinct[OF wf])
  have idem: "\<And>x::('a \<times> edge_attrs) list. AList.delete n (AList.delete n x) = AList.delete n x"
    by (simp add: delete_idem)
  have "fold (\<lambda>u. AList.map_entry u (AList.delete n)) (map fst nbrs) (adj_dict g) =
     map (\<lambda>p. if fst p \<in> set (map fst nbrs) then (fst p, AList.delete n (snd p)) else p) (adj_dict g)"
    by (rule fold_map_entry_as_map[where f = "AList.delete n", OF d idem])
  also have "\<dots> = map (\<lambda>p. (fst p, AList.delete n (snd p))) (adj_dict g)"
  proof (rule map_cong[OF refl])
    fix p assume p: "p \<in> set (adj_dict g)"
    show "(if fst p \<in> set (map fst nbrs) then (fst p, AList.delete n (snd p)) else p) =
       (fst p, AList.delete n (snd p))"
    proof (cases "fst p \<in> set (map fst nbrs)")
      case True
      then show ?thesis by simp
    next
      case False
      have "n \<notin> fst ` set (snd p)"
      proof
        assume "n \<in> fst ` set (snd p)"
        moreover from p have "(fst p, snd p) \<in> set (adj_dict g)" by simp
        ultimately obtain a where "adj_lookup (adj_dict g) (fst p) n = Some a"
          using adj_lookup_SomeI[OF d] by blast
        from wf_adj_sym[OF wf this] have "adj_lookup (adj_dict g) n (fst p) = Some a" .
        with nb have "map_of nbrs (fst p) = Some a" by (simp add: adj_lookup_def)
        from map_of_Some_in_keys[OF this] False show False by simp
      qed
      then have "AList.delete n (snd p) = snd p" by simp
      with False show ?thesis by simp
    qed
  qed
  finally have f: "fold (\<lambda>u. AList.map_entry u (AList.delete n)) (map fst nbrs) (adj_dict g) =
     map (\<lambda>p. (fst p, AList.delete n (snd p))) (adj_dict g)" .
  have "AList.delete n (map (\<lambda>p. (fst p, AList.delete n (snd p))) (adj_dict g)) =
     map (\<lambda>(m, ns). (m, filter (\<lambda>(v, e). v \<noteq> n) ns)) (filter (\<lambda>(m, ns). m \<noteq> n) (adj_dict g))"
    unfolding delete_as_filter by (induction "adj_dict g") (auto simp: filter_map comp_def split_def)
  with f show ?thesis by (simp add: remove_node_def nb delete_as_filter)
qed

lemma spec_heal_node_absent:
  "\<not> has_node g node \<Longrightarrow> spec_heal_node g node = (g, [])"
  using map_of_Some_in_keys[of "node_dict g" node]
  by (cases "map_of (node_dict g) node") (auto simp: spec_heal_node_def has_node_def)

lemma spec_heal_node_present:
  assumes "map_of (node_dict g) node = Some attrs" "map_of (adj_dict g) node = Some ns"
  shows "spec_heal_node g node =
     (\<lparr>node_dict = map (add_share (map fst ns)
            ((case resources attrs of None \<Rightarrow> 0 | Some x \<Rightarrow> x) / real (length ns)))
          (filter (\<lambda>(m, a). m \<noteq> node) (node_dict g)),
       adj_dict = map (\<lambda>(m, ns). (m, filter (\<lambda>(v, e). v \<noteq> node) ns))
                    (filter (\<lambda>(m, ns). m \<noteq> node) (adj_dict g))\<rparr>,
      [Removed node (case resources attrs of None \<Rightarrow> 0 | Some x \<Rightarrow> x)])"
proof -
  have "(\<lambda>(m, a). (m, if m \<in> set (map fst ns)
            then a\<lparr>resources := Some ((case resources a of None \<Rightarrow> 0 | Some x \<Rightarrow> x) + share)\<rparr>
            else a)) = add_share (map fst ns) share" for share
    by (auto simp: fun_eq_iff add_share_def)
  then show ?thesis
    unfolding spec_heal_node_def by (simp add: assms Let_def)
qed

lemma filter_add_share:
  "filter (\<lambda>(m, a). m \<noteq> node) (map (add_share nbrs share) xs) =
   map (add_share nbrs share) (filter (\<lambda>(m, a). m \<noteq> node) xs)"
  by (induction xs) (auto simp: add_share_def)

lemma heal_node_spec:
  assumes wf: "wf_graph g"
  shows "heal_node (g, acts) node =
     Inr (fst (spec_heal_node g node), acts @ snd (spec_heal_node g node))"
    and "wf_graph (fst (spec_heal_node g node))"
proof -
  have "heal_node (g, acts) node =
     Inr (fst (spec_heal_node g node), acts @ snd (spec_heal_node g node)) \<and>
     wf_graph (fst (spec_heal_node g node))"
  proof (cases "has_node g node")
    case False
    with wf show ?thesis by (simp add: spec_heal_node_absent heal_node_absent)
  next
    case True
    then obtain attrs where at: "map_of (node_dict g) node = Some attrs"
      using map_of_in_keys[of node "node_dict g"] by (auto simp: has_node_def)
    from True has_node_adj_key[OF wf] obtain ns where ns: "map_of (adj_dict g) node = Some ns"
      by blast
    define R where "R = (case resources attrs of None \<Rightarrow> 0 | Some x \<Rightarrow> x)"
    define nbrs where "nbrs = map fst ns"
    define g1 where "g1 = g\<lparr>node_dict := map (add_share nbrs (R / real (length nbrs))) (node_dict g)\<rparr>"
    have nb: "neighbors g node = Inr nbrs" by (simp add: neighbors_def ns nbrs_def)
    from neighbors_wf[OF wf True] nb have dn: "distinct nbrs" and hn: "\<forall>u\<in>set nbrs. has_node g u"
      by auto
    have gr: "get_resources g node = Inr R" by (simp add: get_resources_def at R_def)
    from wf have d: "distinct (map fst (node_dict g))" by (simp add: wf_graph_def)
    have rd: "(if nbrs \<noteq> [] then redistribute g (R / real (length nbrs)) nbrs else Inr g) = Inr g1"
    proof (cases "nbrs = []")
      case True
      then show ?thesis by (simp add: g1_def map_idI)
    next
      case False
      with redistribute_as_map[OF d hn dn] show ?thesis by (simp add: g1_def)
    qed
    from redistribute_props[OF wf hn dn, of "R / real (length nbrs)"] redistribute_as_map[OF d hn dn]
    have wf1: "wf_graph g1" by (auto simp: g1_def)
    have h1: "has_node g1 node" using True by (simp add: has_node_def g1_def)
    from remove_node_as_filter[OF wf1 h1]
    have rm: "remove_node g1 node = Inr (fst (spec_heal_node g node))"
      unfolding spec_heal_node_present[OF at ns]
      by (simp add: g1_def filter_add_share nbrs_def R_def)
    from remove_node_props(2)[OF wf1 rm] have wf2: "wf_graph (fst (spec_heal_node g node))" .
    have "heal_node (g, acts) node = Inr (fst (spec_heal_node g node), acts @ [Removed node R])"
      unfolding heal_node_def using True by (simp add: nb gr rd rm Let_def)
    moreover have "snd (spec_heal_node g node) = [Removed node R]"
      unfolding spec_heal_node_present[OF at ns] by (simp add: R_def)
    ultimately show ?thesis using wf2 by simp
  qed
  then show "heal_node (g, acts) node =
     Inr (fst (spec_heal_node g node), acts @ snd (spec_heal_node g node))"
    and "wf_graph (fst (spec_heal_node g node))" by simp_all
qed

lemma heal_nodes_spec:
  assumes "wf_graph g"
  shows "heal_nodes (g, acts) ns = Inr (fst (spec_heal g ns), acts @ snd (spec_heal g ns)) \<and>
     wf_graph (fst (spec_heal g ns))"
  using assms
proof (induction ns arbitrary: g acts)
  case Nil
  then show ?case by simp
next
  case (Cons n ns)
  from heal_node_spec(1)[OF Cons.prems, of acts n] Cons.IH[OF heal_node_spec(2)[OF Cons.prems, of n]]
  show ?case by (simp add: Let_def)
qed

section \<open>The claims about self-healing\<close>

lemmas heal_eval = wf_graph_def adj_lookup_def has_node_def neighbors_def get_resources_def
  heal_graph_def example_node_def example_edge_def



text \<open>
  Claim C10: a damaged node that is in the graph, has no neighbours and holds \<open>R\<close> is
  removed, and \<open>R\<close> is added to no other node: every other node keeps its attribute
  dictionary, and the sum of all resources drops by exactly \<open>R\<close>. The action for the
  node is appended and reports \<open>R\<close>. The same holds for the whole call with this one
  damaged node, since the second phase does not touch the nodes' attributes.
\<close>

theorem isolated_node_resources_lost:
  assumes "wf_graph g" "has_node g node" "neighbors g node = Inr []"
    "get_resources g node = Inr R"
  shows "\<exists>g'. heal_node (g, acts) node = Inr (g', acts @ [Removed node R]) \<and>
     \<not> has_node g' node \<and>
     (\<forall>m. m \<noteq> node \<longrightarrow> map_of (node_dict g') m = map_of (node_dict g) m) \<and>
     total_resources g' = total_resources g - R \<and>
     (\<exists>g'' r' acts''. self_healing_response g [node] healing_factor r = Inr (g'', r', acts'') \<and>
        node_dict g'' = node_dict g' \<and> total_resources g'' = total_resources g - R \<and>
        take 1 acts'' = [Removed node R])"
proof -
  from heal_node_present[OF assms(1,2), of acts] assms(3,4) obtain g' where
    h: "heal_node (g, acts) node = Inr (g', acts @ [Removed node R])"
    and hm: "\<forall>m. has_node g' m \<longleftrightarrow> has_node g m \<and> m \<noteq> node"
    and nd: "node_dict g' = AList.delete node (node_dict g)" by auto
  from hm have gone: "\<not> has_node g' node" by blast
  from nd have same: "\<forall>m. m \<noteq> node \<longrightarrow> map_of (node_dict g') m = map_of (node_dict g) m"
    by simp
  from total_resources_delete[OF assms(1,4) nd]
  have tot: "total_resources g' = total_resources g - R" .
  from heal_node_present[OF assms(1,2), of "[]"] assms(3,4) obtain g0 where
    h0: "heal_node (g, []) node = Inr (g0, [] @ [Removed node R])"
    and nd0: "node_dict g0 = AList.delete node (node_dict g)" by auto
  from self_healing_props[OF assms(1), of "[node]" healing_factor r] obtain g1 acts1 g'' r' acts''
    where hn: "heal_nodes (g, []) [node] = Inr (g1, acts1)"
      and run: "self_healing_response g [node] healing_factor r = Inr (g'', r', acts'')"
      and nd2: "node_dict g'' = node_dict g1"
      and tk: "take (length acts1) acts'' = acts1" by blast
  from hn h0 have e: "g1 = g0" "acts1 = [Removed node R]" by simp_all
  from nd2 nd0 nd have nd3: "node_dict g'' = node_dict g'" unfolding e by simp
  then have "total_resources g'' = total_resources g'" by (simp add: total_resources_def)
  with tot have tot2: "total_resources g'' = total_resources g - R" by simp
  from tk have "take 1 acts'' = [Removed node R]" unfolding e by simp
  with h gone same tot run nd3 tot2 show ?thesis by blast
qed

theorem isolated_node_resources_lost_witness:
  "wf_graph heal_graph \<and> has_node heal_graph 3 \<and> neighbors heal_graph 3 = Inr [] \<and>
   get_resources heal_graph 3 = Inr 9 \<and> total_resources heal_graph = 51 \<and>
   (\<exists>g'. heal_node (heal_graph, []) 3 = Inr (g', [] @ [Removed 3 9]) \<and>
     \<not> has_node g' 3 \<and>
     (\<forall>m. m \<noteq> 3 \<longrightarrow> map_of (node_dict g') m = map_of (node_dict heal_graph) m) \<and>
     total_resources g' = 51 - 9 \<and>
     (\<exists>g'' r' acts''. self_healing_response heal_graph [3] 0.8 example_rng = Inr (g'', r', acts'') \<and>
        node_dict g'' = node_dict g' \<and> total_resources g'' = 51 - 9 \<and>
        take 1 acts'' = [Removed 3 9]))"
proof -
  have h: "wf_graph heal_graph" "has_node heal_graph 3" "neighbors heal_graph 3 = Inr []"
    "get_resources heal_graph 3 = Inr 9"
    by (simp_all add: heal_eval)
  have t: "total_resources heal_graph = 51"
    by (simp add: total_resources_def heal_eval)
  from isolated_node_resources_lost[OF h, of "[]" "0.8" example_rng] h t
  show ?thesis by simp
qed



section \<open>Facts about pathfinding\<close>

lemma nbrs_of_iff: "v \<in> set (nbrs_of (adj_dict g) s) \<longleftrightarrow> adjacent g s v"
proof
  assume "v \<in> set (nbrs_of (adj_dict g) s)"
  then show "adjacent g s v" by (rule nbrs_of_adjacent)
next
  assume "adjacent g s v"
  then obtain nb a where "map_of (adj_dict g) s = Some nb" "map_of nb v = Some a"
    by (auto simp: adjacent_def adj_lookup_def split: option.splits)
  then show "v \<in> set (nbrs_of (adj_dict g) s)"
    using map_of_Some_in_keys[of nb v a] by (simp add: nbrs_of_def)
qed

lemma is_walk_Cons:
  "is_walk g (x # q) \<longleftrightarrow> q = [] \<or> (adjacent g x (hd q) \<and> is_walk g q)"
  by (cases q) simp_all

lemma is_walk_nonempty: "is_walk g p \<Longrightarrow> p \<noteq> []"
  by (cases p) simp_all

lemma walks_iff:
  "p \<in> set (walks (adj_dict g) n s) \<longleftrightarrow> is_walk g p \<and> hd p = s \<and> length p = Suc n"
proof (induction n arbitrary: s p)
  case 0
  show ?case
  proof
    assume "p \<in> set (walks (adj_dict g) 0 s)"
    then show "is_walk g p \<and> hd p = s \<and> length p = Suc 0" by simp
  next
    assume a: "is_walk g p \<and> hd p = s \<and> length p = Suc 0"
    then obtain x where "p = [x]" by (cases p) auto
    with a show "p \<in> set (walks (adj_dict g) 0 s)" by simp
  qed
next
  case (Suc n)
  show ?case
  proof
    assume "p \<in> set (walks (adj_dict g) (Suc n) s)"
    then obtain v q where v: "v \<in> set (nbrs_of (adj_dict g) s)"
      and q: "q \<in> set (walks (adj_dict g) n v)" and p: "p = s # q" by auto
    from q Suc.IH[of q v] have w: "is_walk g q" "hd q = v" "length q = Suc n" by simp_all
    from v have "adjacent g s v" by (simp add: nbrs_of_iff)
    with w p show "is_walk g p \<and> hd p = s \<and> length p = Suc (Suc n)"
      by (simp add: is_walk_Cons)
  next
    assume a: "is_walk g p \<and> hd p = s \<and> length p = Suc (Suc n)"
    then obtain q where p: "p = s # q" and lq: "length q = Suc n" by (cases p) auto
    then have qn: "q \<noteq> []" by auto
    with a p have adj: "adjacent g s (hd q)" and wq: "is_walk g q" by (simp_all add: is_walk_Cons)
    from wq lq Suc.IH[of q "hd q"] have "q \<in> set (walks (adj_dict g) n (hd q))" by simp
    moreover from adj have "hd q \<in> set (nbrs_of (adj_dict g) s)" by (simp add: nbrs_of_iff)
    ultimately show "p \<in> set (walks (adj_dict g) (Suc n) s)" unfolding p by auto
  qed
qed

lemma walks_to_iff:
  "p \<in> set (walks_to (adj_dict g) n s t) \<longleftrightarrow> path_between g s t p \<and> length p = Suc n"
  by (auto simp: walks_to_def walks_iff path_between_def)

lemma search_Some:
  "search adj s t hops fuel = Some p \<Longrightarrow>
     \<exists>k<fuel. p \<in> set (walks_to adj (hops + k) s t) \<and> (\<forall>j<k. walks_to adj (hops + j) s t = [])"
proof (induction fuel arbitrary: hops)
  case 0
  then show ?case by simp
next
  case (Suc fuel)
  show ?case
  proof (cases "walks_to adj hops s t")
    case Nil
    with Suc.prems have "search adj s t (Suc hops) fuel = Some p" by simp
    from Suc.IH[OF this] obtain k where k: "k < fuel"
      "p \<in> set (walks_to adj (Suc hops + k) s t)"
      "\<forall>j<k. walks_to adj (Suc hops + j) s t = []" by blast
    have "\<forall>j<Suc k. walks_to adj (hops + j) s t = []"
    proof (intro allI impI)
      fix j assume "j < Suc k"
      show "walks_to adj (hops + j) s t = []"
      proof (cases j)
        case 0 with Nil show ?thesis by simp
      next
        case (Suc i)
        with \<open>j < Suc k\<close> k(3) show ?thesis by simp
      qed
    qed
    with k(1,2) show ?thesis by (intro exI[of _ "Suc k"]) simp
  next
    case (Cons q qs)
    with Suc.prems have "p = q" by simp
    with Cons show ?thesis by (intro exI[of _ 0]) simp
  qed
qed

lemma search_None:
  "search adj s t hops fuel = None \<Longrightarrow> \<forall>k<fuel. walks_to adj (hops + k) s t = []"
proof (induction fuel arbitrary: hops)
  case 0
  then show ?case by simp
next
  case (Suc fuel)
  from Suc.prems have e: "walks_to adj hops s t = []" and r: "search adj s t (Suc hops) fuel = None"
    by (cases "walks_to adj hops s t"; simp)+
  show ?case
  proof (intro allI impI)
    fix k assume "k < Suc fuel"
    show "walks_to adj (hops + k) s t = []"
    proof (cases k)
      case 0 with e show ?thesis by simp
    next
      case (Suc i)
      with \<open>k < Suc fuel\<close> Suc.IH[OF r] show ?thesis by simp
    qed
  qed
qed

lemma shortest_path_search:
  assumes "shortest_path g s t = Inr p"
  shows "\<exists>k. p \<in> set (walks_to (adj_dict g) k s t) \<and> (\<forall>j<k. walks_to (adj_dict g) j s t = [])"
proof -
  from assms have "search (adj_dict g) s t 0 (length (node_dict g)) = Some p"
    by (auto simp: shortest_path_def split: if_splits option.splits)
  from search_Some[OF this] show ?thesis by auto
qed

lemma shortest_path_sound:
  assumes "shortest_path g s t = Inr p"
  shows "path_between g s t p" and "\<And>q. path_between g s t q \<Longrightarrow> length p \<le> length q"
proof -
  from shortest_path_search[OF assms] obtain k where
    p: "p \<in> set (walks_to (adj_dict g) k s t)" and mn: "\<forall>j<k. walks_to (adj_dict g) j s t = []"
    by blast
  from p show "path_between g s t p" by (simp add: walks_to_iff)
  fix q assume q: "path_between g s t q"
  then have "q \<noteq> []" by (auto simp: path_between_def dest: is_walk_nonempty)
  then obtain m where m: "length q = Suc m" by (cases q) auto
  with q have "q \<in> set (walks_to (adj_dict g) m s t)" by (simp add: walks_to_iff)
  with mn have "\<not> m < k" by auto
  with p m show "length p \<le> length q" by (simp add: walks_to_iff)
qed

lemma is_walk_dropWhile:
  "is_walk g q \<Longrightarrow> x \<in> set q \<Longrightarrow> is_walk g (dropWhile (\<lambda>z. z \<noteq> x) q)"
proof (induction g q rule: is_walk.induct)
  case (1 g)
  then show ?case by simp
next
  case (2 g y)
  then show ?case by simp
next
  case (3 g a b ys)
  show ?case
  proof (cases "a = x")
    case True
    with "3.prems" show ?thesis by simp
  next
    case False
    with "3.prems" have "x \<in> set (b # ys)" "is_walk g (b # ys)" by simp_all
    from "3.IH"[OF this(2,1)] False show ?thesis by simp
  qed
qed

lemma last_dropWhile_mem:
  "x \<in> set q \<Longrightarrow> last (dropWhile (\<lambda>z. z \<noteq> x) q) = last q"
proof (induction q)
  case Nil
  then show ?case by simp
next
  case (Cons a q)
  show ?case
  proof (cases "a = x")
    case True
    then show ?thesis by simp
  next
    case False
    with Cons.prems have m: "x \<in> set q" by simp
    then have "q \<noteq> []" by auto
    with Cons.IH[OF m] False show ?thesis by simp
  qed
qed

lemma hd_dropWhile_mem: "x \<in> set q \<Longrightarrow> hd (dropWhile (\<lambda>z. z \<noteq> x) q) = x"
  by (induction q) auto

lemma walk_shorten:
  "is_walk g p \<Longrightarrow>
     \<exists>q. is_walk g q \<and> hd q = hd p \<and> last q = last p \<and> distinct q \<and> set q \<subseteq> set p"
proof (induction g p rule: is_walk.induct)
  case (1 g)
  then show ?case by simp
next
  case (2 g x)
  have "is_walk g [x] \<and> hd [x] = hd [x] \<and> last [x] = last [x] \<and> distinct [x] \<and> set [x] \<subseteq> set [x]"
    by simp
  then show ?case by blast
next
  case (3 g x y ys)
  from "3.prems" have adj: "adjacent g x y" and w: "is_walk g (y # ys)" by simp_all
  from "3.IH"[OF w] obtain q where q: "is_walk g q" "hd q = y" "last q = last (y # ys)"
    "distinct q" "set q \<subseteq> set (y # ys)" by auto
  show ?case
  proof (cases "x \<in> set q")
    case True
    let ?d = "dropWhile (\<lambda>z. z \<noteq> x) q"
    have "is_walk g ?d" using q(1) True by (rule is_walk_dropWhile)
    moreover have "hd ?d = hd (x # y # ys)" using hd_dropWhile_mem[OF True] by simp
    moreover have "last ?d = last (x # y # ys)" using last_dropWhile_mem[OF True] q(3) by simp
    moreover have "distinct ?d" using q(4) by (rule distinct_dropWhile)
    moreover have "set ?d \<subseteq> set (x # y # ys)"
      using q(5) set_dropWhileD[of _ "\<lambda>z. z \<noteq> x" q] by auto
    ultimately show ?thesis by blast
  next
    case False
    from q(1) have qn: "q \<noteq> []" by (rule is_walk_nonempty)
    have "is_walk g (x # q)" using adj q(1,2) qn by (simp add: is_walk_Cons)
    moreover have "hd (x # q) = hd (x # y # ys)" by simp
    moreover have "last (x # q) = last (x # y # ys)" using q(3) qn by simp
    moreover have "distinct (x # q)" using q(4) False by simp
    moreover have "set (x # q) \<subseteq> set (x # y # ys)" using q(5) by auto
    ultimately show ?thesis by blast
  qed
qed

lemma is_walk_nodes:
  "wf_graph g \<Longrightarrow> is_walk g p \<Longrightarrow> has_node g (hd p) \<Longrightarrow> \<forall>x\<in>set p. has_node g x"
proof (induction g p rule: is_walk.induct)
  case (1 g)
  then show ?case by simp
next
  case (2 g x)
  then show ?case by simp
next
  case (3 g x y ys)
  from "3.prems" have adj: "adjacent g x y" and w: "is_walk g (y # ys)" by simp_all
  from adjacent_has_node(2)[OF "3.prems"(1) adj] have "has_node g (hd (y # ys))" by simp
  from "3.IH"[OF "3.prems"(1) w this] "3.prems"(3) show ?case by simp
qed

lemma distinct_length_le:
  assumes "distinct q" "set q \<subseteq> set ks"
  shows "length q \<le> length ks"
proof -
  have "length q = card (set q)" using assms(1) by (simp add: distinct_card)
  also have "\<dots> \<le> card (set ks)" using assms(2) by (simp add: card_mono)
  also have "\<dots> \<le> length ks" by (rule card_length)
  finally show ?thesis .
qed

lemma shortest_path_complete:
  assumes wf: "wf_graph g" and hs: "has_node g s" and ht: "has_node g t"
    and pb: "path_between g s t p0"
  shows "\<exists>p. shortest_path g s t = Inr p"
proof (rule ccontr)
  assume n: "\<not> (\<exists>p. shortest_path g s t = Inr p)"
  with hs ht have sn: "search (adj_dict g) s t 0 (length (node_dict g)) = None"
    by (cases "search (adj_dict g) s t 0 (length (node_dict g))") (simp_all add: shortest_path_def)
  from pb have w0: "is_walk g p0" "hd p0 = s" "last p0 = t" by (simp_all add: path_between_def)
  from walk_shorten[OF w0(1)] obtain q where q: "is_walk g q" "hd q = s" "last q = t" "distinct q"
    using w0 by auto
  from is_walk_nodes[OF wf q(1)] hs q(2) have "\<forall>x\<in>set q. has_node g x" by simp
  then have "set q \<subseteq> set (map fst (node_dict g))" by (auto simp: has_node_def)
  from distinct_length_le[OF q(4) this] have le: "length q \<le> length (node_dict g)" by simp
  from q(1) have "q \<noteq> []" by (rule is_walk_nonempty)
  then obtain m where m: "length q = Suc m" by (cases q) auto
  with q have "q \<in> set (walks_to (adj_dict g) m s t)"
    by (simp add: walks_to_iff path_between_def)
  moreover from m le have "m < length (node_dict g)" by simp
  ultimately show False using search_None[OF sn] by auto
qed

lemma shortest_path_no_path:
  assumes "has_node g s" "has_node g t" "\<not> (\<exists>p. path_between g s t p)"
  shows "shortest_path g s t = Inl NetworkXNoPath"
proof (cases "search (adj_dict g) s t 0 (length (node_dict g))")
  case None
  with assms(1,2) show ?thesis by (simp add: shortest_path_def)
next
  case (Some p)
  with assms(1,2) have "shortest_path g s t = Inr p" by (simp add: shortest_path_def)
  from shortest_path_sound(1)[OF this] assms(3) show ?thesis by blast
qed

end
